theory Spec2Isabelle
  imports Complex_Main "HOL-Library.Word"
begin

section \<open>Data model of \<open>main.c\<close>\<close>

text \<open>
  The macros of the source. \<open>NSEC_PER_SEC\<close> is an \<open>unsigned long\<close> constant
  (\<open>1000000000ul\<close>); the arithmetic it takes part in is unsigned 64-bit arithmetic
  (\<open>u64_t\<close>, and \<open>long\<close> on an LP64 target), so it is a 64-bit word.
\<close>

definition NSEC_PER_SEC :: "64 word" where
  "NSEC_PER_SEC = 1000000000"

definition SSID_SIZE :: nat where
  "SSID_SIZE = 64"

definition BUFFER_SIZE :: nat where
  "BUFFER_SIZE = 32"

text \<open>
  An identifier (\<open>char*\<close>) is the content of a C string: the characters before the
  terminating NUL.
\<close>

text \<open>
  Modelled from the spec: \<open>f32_t\<close> is declared in \<open>data_types.h\<close>, which is not among
  the sources. The spec calls a timestamp a floating-point number of seconds and the
  name gives the width, so \<open>f32_t\<close> is the 32-bit IEEE float. A value is carried as the
  real number it denotes, and every conversion and arithmetic operation rounds its exact
  result to the nearest float, ties to the even significand (\<open>f32_round\<close>): 24
  significant bits, the smallest spacing \<open>2\<^sup>-\<^sup>1\<^sup>4\<^sup>9\<close> of the subnormal range. Infinities
  and NaN are not modelled: no value that comes from the fields of a \<open>timespec\<close>
  reaches the magnitude \<open>2\<^sup>1\<^sup>2\<^sup>8\<close>.
\<close>

type_synonym f32_t = real

text \<open>
  The spacing of the floats around a magnitude \<open>a\<close>: the least
  \<open>u = 2\<^sup>k \<cdot> 2\<^sup>-\<^sup>1\<^sup>4\<^sup>9\<close> with \<open>a < 2\<^sup>2\<^sup>4 \<cdot> u\<close>, found by doubling.
\<close>

function f32_ulp_from :: "real \<Rightarrow> real \<Rightarrow> real" where
  "f32_ulp_from u a =
    (if u \<le> 0 \<or> a < 16777216 * u then u else f32_ulp_from (2 * u) a)"
  by pat_completeness auto
termination
proof (relation "measure (\<lambda>(u, a). nat \<lceil>a / u\<rceil>)")
  show "wf (measure (\<lambda>(u, a). nat \<lceil>a / u\<rceil>))"
    by simp
next
  fix u a :: real
  assume "\<not> (u \<le> 0 \<or> a < 16777216 * u)"
  then have u: "0 < u" and a: "16777216 * u \<le> a"
    by simp_all
  have t: "16777216 \<le> a / u"
    using u a by (simp add: pos_le_divide_eq)
  have "a / (2 * u) = a / u / 2"
    by simp
  also have "\<dots> \<le> a / u - 1"
    using t by simp
  finally have "\<lceil>a / (2 * u)\<rceil> \<le> \<lceil>a / u - 1\<rceil>"
    by (rule ceiling_mono)
  then have "\<lceil>a / (2 * u)\<rceil> < \<lceil>a / u\<rceil>"
    by simp
  moreover have "0 < \<lceil>a / u\<rceil>"
    using t by simp
  ultimately show "((2 * u, a), (u, a)) \<in> measure (\<lambda>(u, a). nat \<lceil>a / u\<rceil>)"
    by simp
qed

definition f32_ulp :: "real \<Rightarrow> real" where
  "f32_ulp a = f32_ulp_from (1 / 2 ^ 149) a"

text \<open>Rounding a non-negative real to the nearest integer, ties to the even one.\<close>

definition round_half_even :: "real \<Rightarrow> real" where
  "round_half_even y =
    (let n = \<lfloor>y\<rfloor> in
     if y - of_int n < 1 / 2 then of_int n
     else if 1 / 2 < y - of_int n then of_int n + 1
     else if even n then of_int n else of_int n + 1)"

definition f32_round :: "real \<Rightarrow> f32_t" where
  "f32_round x = sgn x * (round_half_even (\<bar>x\<bar> / f32_ulp \<bar>x\<bar>) * f32_ulp \<bar>x\<bar>)"

text \<open>
  The operations the code uses: the conversion of an integer operand to \<open>f32_t\<close>, and
  \<open>+\<close>, \<open>-\<close> and \<open>/\<close> on two \<open>f32_t\<close> operands.
\<close>

definition f32_of_int :: "int \<Rightarrow> f32_t" where
  "f32_of_int i = f32_round (real_of_int i)"

definition f32_add :: "f32_t \<Rightarrow> f32_t \<Rightarrow> f32_t" where
  "f32_add a b = f32_round (a + b)"

definition f32_sub :: "f32_t \<Rightarrow> f32_t \<Rightarrow> f32_t" where
  "f32_sub a b = f32_round (a - b)"

definition f32_div :: "f32_t \<Rightarrow> f32_t \<Rightarrow> f32_t" where
  "f32_div a b = f32_round (a / b)"

text \<open>
  \<open>struct timespec\<close>: \<open>tv_sec\<close> is a \<open>time_t\<close> and \<open>tv_nsec\<close> a \<open>long\<close>, both
  signed and, on an LP64 target, 64 bits wide (\<open>sint\<close> reads them).
\<close>

record timespec =
  tv_sec :: "64 word"
  tv_nsec :: "64 word"

text \<open>
  \<open>struct SSIDQueue\<close>. The two buffers are arrays of \<open>BUFFER_SIZE\<close> slots, \<open>head\<close>
  and \<open>tail\<close> are \<open>u32_t\<close> indices that the code keeps below \<open>BUFFER_SIZE\<close>, and the
  flags \<open>full\<close> and \<open>empty\<close> are \<open>u8_t\<close> values that only ever hold 0 or 1. The mutex
  and the condition variables carry no data.
\<close>

record SSIDQueue =
  ssid_buffer :: "string list"
  timestamp_buffer :: "f32_t list"
  head :: nat
  tail :: nat
  full_flag :: bool
  empty_flag :: bool

section \<open>The queue operations\<close>

text \<open>
  \<open>queueAdd\<close>: store at \<open>tail\<close>, advance \<open>tail\<close> circularly, update the flags.
  \<open>strcpy\<close> copies the identifier whole: an identifier is shorter than the
  \<open>SSID_SIZE\<close> characters of a slot (\<open>fgets\<close> in \<open>readSSID\<close> stores at most
  \<open>SSID_SIZE - 2\<close> characters and the NUL).
\<close>

definition queueAdd :: "string \<Rightarrow> f32_t \<Rightarrow> SSIDQueue \<Rightarrow> SSIDQueue" where
  "queueAdd ssid timestamp q =
    (let q1 = q\<lparr>ssid_buffer := (ssid_buffer q)[tail q := ssid]\<rparr>;
         q2 = q1\<lparr>timestamp_buffer := (timestamp_buffer q1)[tail q1 := timestamp]\<rparr>;
         q3 = q2\<lparr>tail := tail q2 + 1\<rparr>;
         q4 = (if tail q3 = BUFFER_SIZE then q3\<lparr>tail := 0\<rparr> else q3);
         q5 = (if tail q4 = head q4 then q4\<lparr>full_flag := True\<rparr> else q4)
     in q5\<lparr>empty_flag := False\<rparr>)"

text \<open>
  \<open>queuePop\<close>: read at \<open>head\<close>, advance \<open>head\<close> circularly, update the flags. The two
  output parameters are returned together with the new queue.
\<close>

definition queuePop :: "SSIDQueue \<Rightarrow> string \<times> f32_t \<times> SSIDQueue" where
  "queuePop q =
    (let ssid = ssid_buffer q ! head q;
         timestamp = timestamp_buffer q ! head q;
         q1 = q\<lparr>head := head q + 1\<rparr>;
         q2 = (if head q1 = BUFFER_SIZE then q1\<lparr>head := 0\<rparr> else q1);
         q3 = (if head q2 = tail q2 then q2\<lparr>empty_flag := True\<rparr> else q2)
     in (ssid, timestamp, q3\<lparr>full_flag := False\<rparr>))"

subsection \<open>Invariant and abstraction\<close>

text \<open>
  The states the program can reach: both buffers have \<open>BUFFER_SIZE\<close> slots, the two
  indices are in range, and the flags discriminate the two meanings of \<open>head = tail\<close>.
\<close>

definition queue_inv :: "SSIDQueue \<Rightarrow> bool" where
  "queue_inv q =
    (length (ssid_buffer q) = BUFFER_SIZE \<and> length (timestamp_buffer q) = BUFFER_SIZE \<and>
     head q < BUFFER_SIZE \<and> tail q < BUFFER_SIZE \<and>
     (if head q = tail q then full_flag q \<noteq> empty_flag q
      else \<not> full_flag q \<and> \<not> empty_flag q))"

text \<open>The number of occupied slots, and the entries they hold, oldest first.\<close>

definition occupied :: "SSIDQueue \<Rightarrow> nat" where
  "occupied q =
    (if full_flag q then BUFFER_SIZE
     else (tail q + BUFFER_SIZE - head q) mod BUFFER_SIZE)"

definition slot :: "SSIDQueue \<Rightarrow> nat \<Rightarrow> string \<times> f32_t" where
  "slot q k =
    (let i = (head q + k) mod BUFFER_SIZE in (ssid_buffer q ! i, timestamp_buffer q ! i))"

definition queue_entries :: "SSIDQueue \<Rightarrow> (string \<times> f32_t) list" where
  "queue_entries q = map (slot q) [0..<occupied q]"

text \<open>
  A finite run of queue operations, as the two tasks perform them on the shared queue
  under its lock. \<open>run_ops\<close> returns what the dequeues delivered, in order, and the
  final queue. \<open>guarded\<close> says that every enqueue found the queue not full (the test
  in \<open>readSSID\<close>) and every dequeue found it not empty (the wait in \<open>STORE_TASK\<close>),
  and that every identifier fits a slot of \<open>SSID_SIZE\<close> characters with its NUL, as
  \<open>strcpy\<close> needs.
\<close>

datatype queue_op = Add string f32_t | Pop

fun run_ops :: "queue_op list \<Rightarrow> SSIDQueue \<Rightarrow> (string \<times> f32_t) list \<times> SSIDQueue" where
  "run_ops [] q = ([], q)"
| "run_ops (Add ssid timestamp # ops) q = run_ops ops (queueAdd ssid timestamp q)"
| "run_ops (Pop # ops) q =
    (let (ssid, timestamp, q') = queuePop q;
         (out, q'') = run_ops ops q'
     in ((ssid, timestamp) # out, q''))"

fun guarded :: "queue_op list \<Rightarrow> SSIDQueue \<Rightarrow> bool" where
  "guarded [] q = True"
| "guarded (Add ssid timestamp # ops) q =
    (\<not> full_flag q \<and> length ssid < SSID_SIZE \<and> guarded ops (queueAdd ssid timestamp q))"
| "guarded (Pop # ops) q = (\<not> empty_flag q \<and> guarded ops (snd (snd (queuePop q))))"

fun enqueued :: "queue_op list \<Rightarrow> (string \<times> f32_t) list" where
  "enqueued [] = []"
| "enqueued (Add ssid timestamp # ops) = (ssid, timestamp) # enqueued ops"
| "enqueued (Pop # ops) = enqueued ops"

fun dequeues :: "queue_op list \<Rightarrow> nat" where
  "dequeues [] = 0"
| "dequeues (Add ssid timestamp # ops) = dequeues ops"
| "dequeues (Pop # ops) = Suc (dequeues ops)"

section \<open>Time\<close>

text \<open>
  \<open>getCurrentTimestamp\<close> converts the reading \<open>current_t\<close> that \<open>clock_gettime\<close>
  stored. The reading is a parameter of every function that calls it. The quotient is
  a float division of the converted \<open>tv_nsec\<close> by the float \<open>1000000000\<close>, and the
  sum a float addition of the converted \<open>tv_sec\<close>.
\<close>

definition getCurrentTimestamp :: "timespec \<Rightarrow> f32_t" where
  "getCurrentTimestamp current_t =
    f32_add (f32_of_int (sint (tv_sec current_t)))
      (f32_div (f32_of_int (sint (tv_nsec current_t))) (f32_of_int 1000000000))"

text \<open>
  \<open>updateInterval\<close>. The addition is done in \<open>u64_t\<close> and stored back into the
  \<open>long\<close> field; the comparison with the \<open>unsigned long\<close> constant and the
  subtraction are unsigned. The loop ends because each round takes \<open>NSEC_PER_SEC\<close>
  off a value that is at least that large.
\<close>

function updateInterval_loop :: "timespec \<Rightarrow> timespec" where
  "updateInterval_loop task_timer =
    (if NSEC_PER_SEC \<le> tv_nsec task_timer
     then updateInterval_loop
            (task_timer\<lparr>tv_nsec := tv_nsec task_timer - NSEC_PER_SEC,
                        tv_sec := tv_sec task_timer + 1\<rparr>)
     else task_timer)"
  by pat_completeness auto
termination
proof (relation "measure (\<lambda>task_timer. unat (tv_nsec task_timer))")
  show "wf (measure (\<lambda>task_timer. unat (tv_nsec task_timer)))"
    by simp
next
  fix task_timer :: timespec
  assume le: "NSEC_PER_SEC \<le> tv_nsec task_timer"
  have "unat (tv_nsec task_timer - NSEC_PER_SEC) = unat (tv_nsec task_timer) - unat NSEC_PER_SEC"
    using le by (rule unat_sub)
  moreover have "unat NSEC_PER_SEC \<le> unat (tv_nsec task_timer)"
    using le by (simp add: word_le_nat_alt)
  moreover have "0 < unat NSEC_PER_SEC"
    by (simp add: NSEC_PER_SEC_def)
  ultimately show
    "(task_timer\<lparr>tv_nsec := tv_nsec task_timer - NSEC_PER_SEC, tv_sec := tv_sec task_timer + 1\<rparr>,
      task_timer) \<in> measure (\<lambda>task_timer. unat (tv_nsec task_timer))"
    by simp
qed

definition updateInterval :: "timespec \<Rightarrow> 64 word \<Rightarrow> timespec" where
  "updateInterval task_timer interval =
    updateInterval_loop (task_timer\<lparr>tv_nsec := tv_nsec task_timer + interval\<rparr>)"

text \<open>The time a \<open>timespec\<close> denotes, in nanoseconds.\<close>

definition total_nsec :: "timespec \<Rightarrow> int" where
  "total_nsec t = sint (tv_sec t) * 1000000000 + sint (tv_nsec t)"

text \<open>
  What \<open>clock_gettime\<close> stores for the monotonic clock: a time that is not negative,
  with the nanosecond field in \<open>[0, 10\<^sup>9)\<close>.
\<close>

definition clock_reading :: "timespec \<Rightarrow> bool" where
  "clock_reading t =
    (0 \<le> sint (tv_sec t) \<and> 0 \<le> sint (tv_nsec t) \<and> sint (tv_nsec t) < 1000000000)"

section \<open>The producer: \<open>readSSID\<close>\<close>

text \<open>
  \<open>strcmp\<close> and \<open>strncmp\<close> of the C library on string contents: zero when equal,
  otherwise the sign of the first difference.
\<close>

fun strcmp :: "string \<Rightarrow> string \<Rightarrow> int" where
  "strcmp [] [] = 0"
| "strcmp [] (y # ys) = - 1"
| "strcmp (x # xs) [] = 1"
| "strcmp (x # xs) (y # ys) =
    (if x = y then strcmp xs ys
     else if (of_char x :: nat) < of_char y then - 1 else 1)"

fun strncmp :: "string \<Rightarrow> string \<Rightarrow> nat \<Rightarrow> int" where
  "strncmp xs ys 0 = 0"
| "strncmp [] [] (Suc n) = 0"
| "strncmp [] (y # ys) (Suc n) = - 1"
| "strncmp (x # xs) [] (Suc n) = 1"
| "strncmp (x # xs) (y # ys) (Suc n) =
    (if x = y then strncmp xs ys n
     else if (of_char x :: nat) < of_char y then - 1 else 1)"

text \<open>
  \<open>readSSID\<close>. The first argument is what the scanner subprocess delivers: \<open>None\<close>
  when \<open>popen\<close> returns \<open>NULL\<close>, otherwise the strings that the successive calls of
  \<open>fgets\<close> return until end of file (a line of the scanner, with its newline, or a
  piece of a longer line), each paired with the reading the monotonic clock has while
  that string is processed. \<open>pclose\<close> does not touch the queue.
\<close>

fun readSSID_loop :: "(string \<times> timespec) list \<Rightarrow> SSIDQueue \<Rightarrow> SSIDQueue" where
  "readSSID_loop [] q = q"
| "readSSID_loop ((ssid, current_t) # rest) q =
    readSSID_loop rest
      (if \<not> full_flag q \<and> strncmp ssid ''x00'' 3 \<noteq> 0
       then queueAdd ssid (getCurrentTimestamp current_t) q
       else q)"

definition readSSID :: "(string \<times> timespec) list option \<Rightarrow> SSIDQueue \<Rightarrow> SSIDQueue" where
  "readSSID file q = (case file of None \<Rightarrow> q | Some lines \<Rightarrow> readSSID_loop lines q)"


section \<open>The consumer: \<open>storeSSIDs\<close>\<close>

text \<open>
  The saved identifiers: the five static variables \<open>ssid_num\<close>, \<open>ssids\<close>,
  \<open>num_timestamps\<close>, \<open>timestamps\<close> and \<open>latencies\<close>, parallel arrays indexed by
  the position of the identifier. The counters are natural numbers: memory is exhausted
  long before a counter could wrap, and allocation is taken to succeed.
\<close>

record History =
  ssid_num :: nat
  ssids :: "string list"
  num_timestamps :: "nat list"
  timestamps :: "f32_t list list"
  latencies :: "f32_t list list"

text \<open>
  \<open>realloc\<close> to \<open>n\<close> cells keeps the old cells; \<open>fresh\<close> stands for the
  indeterminate content of a new cell, which the code writes before it reads.
\<close>

definition realloc :: "'a \<Rightarrow> 'a list \<Rightarrow> nat \<Rightarrow> 'a list" where
  "realloc fresh xs n = take n xs @ replicate (n - length xs) fresh"

function storeSSIDs_loop ::
  "string \<Rightarrow> f32_t \<Rightarrow> timespec \<Rightarrow> History \<Rightarrow> nat \<Rightarrow> History \<times> bool" where
  "storeSSIDs_loop ssid timestamp current_t h i =
    (if i < ssid_num h then
       (if strcmp (ssids h ! i) ssid = 0 \<and>
           timestamps h ! i ! (num_timestamps h ! i - 1) \<noteq> timestamp
        then
          (let h1 = h\<lparr>num_timestamps := (num_timestamps h)[i := num_timestamps h ! i + 1]\<rparr>;
               h2 = h1\<lparr>timestamps := (timestamps h1)
                        [i := realloc 0 (timestamps h1 ! i) (num_timestamps h1 ! i)]\<rparr>;
               h3 = h2\<lparr>timestamps := (timestamps h2)
                        [i := (timestamps h2 ! i)[num_timestamps h2 ! i - 1 := timestamp]]\<rparr>;
               h4 = h3\<lparr>latencies := (latencies h3)
                        [i := realloc 0 (latencies h3 ! i) (num_timestamps h3 ! i)]\<rparr>;
               h5 = h4\<lparr>latencies := (latencies h4)
                        [i := (latencies h4 ! i)
                           [num_timestamps h4 ! i - 1 := f32_sub (getCurrentTimestamp current_t) timestamp]]\<rparr>
           in (h5, True))
        else storeSSIDs_loop ssid timestamp current_t h (i + 1))
     else (h, False))"
  by pat_completeness auto
termination
  by (relation "measure (\<lambda>(ssid, timestamp, current_t, h, i). ssid_num h - i)") auto

text \<open>The branch taken when the loop leaves \<open>ssid_found\<close> at 0.\<close>

definition storeSSIDs_new :: "string \<Rightarrow> f32_t \<Rightarrow> timespec \<Rightarrow> History \<Rightarrow> History" where
  "storeSSIDs_new ssid timestamp current_t h =
    (let h1 = h\<lparr>ssid_num := ssid_num h + 1\<rparr>;
         h2 = h1\<lparr>ssids := (realloc [] (ssids h1) (ssid_num h1))[ssid_num h1 - 1 := ssid]\<rparr>;
         h3 = h2\<lparr>num_timestamps :=
                  (realloc 0 (num_timestamps h2) (ssid_num h2))[ssid_num h2 - 1 := 1]\<rparr>;
         h4 = h3\<lparr>timestamps :=
                  (realloc [] (timestamps h3) (ssid_num h3))
                    [ssid_num h3 - 1 := [0][0 := timestamp]]\<rparr>
     in h4\<lparr>latencies :=
             (realloc [] (latencies h4) (ssid_num h4))
               [ssid_num h4 - 1 := [0][0 := f32_sub (getCurrentTimestamp current_t) timestamp]]\<rparr>)"

text \<open>
  \<open>storeSSIDs\<close> on the queue and the saved identifiers. \<open>current_t\<close> is the clock
  reading of the one call of \<open>getCurrentTimestamp\<close> that an invocation makes.
\<close>

definition storeSSIDs :: "timespec \<Rightarrow> SSIDQueue \<times> History \<Rightarrow> SSIDQueue \<times> History" where
  "storeSSIDs current_t s =
    (let (ssid, timestamp, q') = queuePop (fst s);
         (h', ssid_found) = storeSSIDs_loop ssid timestamp current_t (snd s) 0
     in (q', if \<not> ssid_found then storeSSIDs_new ssid timestamp current_t h' else h'))"

text \<open>The static variables before the first aggregation: no identifier, null arrays.\<close>

definition history_static :: History where
  "history_static =
    \<lparr>ssid_num = 0, ssids = [], num_timestamps = [], timestamps = [], latencies = []\<rparr>"

text \<open>
  The saved identifiers after finitely many iterations of \<open>STORE_TASK\<close>. Each
  iteration is given by the clock reading of its aggregation and by the queue it finds,
  whatever the producer has made of it since the iteration before.
\<close>

definition STORE_TASK_history :: "(timespec \<times> SSIDQueue) list \<Rightarrow> History" where
  "STORE_TASK_history steps =
    foldl (\<lambda>h (current_t, q). snd (storeSSIDs current_t (q, h))) history_static steps"

text \<open>
  What holds of the saved identifiers: the five variables agree on the number of
  identifiers, and the two sequences of an identifier have the length its counter says,
  which is at least one.
\<close>

definition history_inv :: "History \<Rightarrow> bool" where
  "history_inv h =
    (length (ssids h) = ssid_num h \<and> length (num_timestamps h) = ssid_num h \<and>
     length (timestamps h) = ssid_num h \<and> length (latencies h) = ssid_num h \<and>
     list_all (\<lambda>i. 0 < num_timestamps h ! i \<and>
                   length (timestamps h ! i) = num_timestamps h ! i \<and>
                   length (latencies h ! i) = num_timestamps h ! i) [0..<ssid_num h])"

section \<open>The tasks and the entry point\<close>

text \<open>
  \<open>INIT_TASK\<close>: \<open>Inl\<close> carries the argument of \<open>exit\<close>, \<open>Inr\<close> the value of
  \<open>read_cycle_time\<close> and the initialised queue. \<open>strtoul\<close> is the C library's
  function with its last two arguments fixed to \<open>NULL\<close> and 0; the product is an
  \<open>unsigned long\<close> product.
\<close>

definition INIT_TASK ::
  "(string \<Rightarrow> 64 word) \<Rightarrow> int \<Rightarrow> string list \<Rightarrow> SSIDQueue \<Rightarrow> int + (64 word \<times> SSIDQueue)" where
  "INIT_TASK strtoul argc argv q =
    (if argc \<noteq> 2 then Inl (- 4)
     else Inr (strtoul (argv ! 1) * NSEC_PER_SEC,
               q\<lparr>empty_flag := True, full_flag := False, head := 0, tail := 0\<rparr>))"

text \<open>The queue as static storage holds it when the process starts: all zero.\<close>

definition ssid_queue_static :: SSIDQueue where
  "ssid_queue_static =
    \<lparr>ssid_buffer = replicate BUFFER_SIZE [], timestamp_buffer = replicate BUFFER_SIZE 0,
     head = 0, tail = 0, full_flag = False, empty_flag = False\<rparr>"

text \<open>
  \<open>main\<close> up to the creation of the two threads, which never return. The result is
  the list of real-time setup calls made, in order, and how the process goes on: it
  exits with a status, or the tasks run with the given cycle time and queue.
  \<open>mlockall_ret\<close> and \<open>sched_setaffinity_ret\<close> are the values the two system calls
  return.
\<close>

datatype setup_call = Mlockall | PrefaultStack | SchedSetaffinity

datatype outcome = Exit int | Tasks_running "64 word" SSIDQueue

definition main_entry ::
  "(string \<Rightarrow> 64 word) \<Rightarrow> int \<Rightarrow> int \<Rightarrow> int \<Rightarrow> string list \<Rightarrow> setup_call list \<times> outcome" where
  "main_entry strtoul mlockall_ret sched_setaffinity_ret argc argv =
    (if mlockall_ret = - 1 then ([Mlockall], Exit (- 2))
     else if sched_setaffinity_ret = - 1
       then ([Mlockall, PrefaultStack, SchedSetaffinity], Exit (- 3))
     else (case INIT_TASK strtoul argc argv ssid_queue_static of
             Inl status \<Rightarrow> ([Mlockall, PrefaultStack, SchedSetaffinity], Exit status)
           | Inr (cycle, q) \<Rightarrow>
               ([Mlockall, PrefaultStack, SchedSetaffinity], Tasks_running cycle q)))"

text \<open>
  The deadline \<open>read_task_timer\<close> of \<open>READ_TASK\<close> when it sleeps in its \<open>n\<close>-th
  iteration: \<open>start\<close> is the reading of \<open>clock_gettime\<close> before the loop, and every
  iteration begins with \<open>updateInterval\<close>.
\<close>

primrec READ_TASK_timer :: "64 word \<Rightarrow> timespec \<Rightarrow> nat \<Rightarrow> timespec" where
  "READ_TASK_timer cycle start 0 = start"
| "READ_TASK_timer cycle start (Suc n) = updateInterval (READ_TASK_timer cycle start n) cycle"

text \<open>
  The C library's \<open>strtoul\<close> with base 0, for arguments given on the command line:
  white space, an optional sign, a prefix that selects base 16 or 8, then the longest
  run of digits; 0 when there is no digit, \<open>ULONG_MAX\<close> on overflow.
\<close>

definition isspace :: "char \<Rightarrow> bool" where
  "isspace c = ((of_char c :: nat) = 32 \<or> (9 \<le> (of_char c :: nat) \<and> (of_char c :: nat) \<le> 13))"

definition digit_value :: "char \<Rightarrow> nat" where
  "digit_value c =
    (let n = (of_char c :: nat) in
     if 48 \<le> n \<and> n \<le> 57 then n - 48
     else if 97 \<le> n \<and> n \<le> 122 then n - 87
     else if 65 \<le> n \<and> n \<le> 90 then n - 55
     else 36)"

fun strtoul_digits :: "nat \<Rightarrow> nat \<Rightarrow> string \<Rightarrow> nat" where
  "strtoul_digits base acc [] = acc"
| "strtoul_digits base acc (c # cs) =
    (if digit_value c < base then strtoul_digits base (acc * base + digit_value c) cs else acc)"

definition strtoul_unsigned :: "string \<Rightarrow> nat" where
  "strtoul_unsigned s =
    (case s of
       c0 # cx # d # cs \<Rightarrow>
         (if c0 = CHR ''0'' \<and> (cx = CHR ''x'' \<or> cx = CHR ''X'') \<and> digit_value d < 16
          then strtoul_digits 16 0 (d # cs)
          else if c0 = CHR ''0'' then strtoul_digits 8 0 (cx # d # cs)
          else strtoul_digits 10 0 s)
     | _ \<Rightarrow> (if take 1 s = ''0'' then strtoul_digits 8 0 s else strtoul_digits 10 0 s))"

definition strtoul_c :: "string \<Rightarrow> 64 word" where
  "strtoul_c s =
    (let s1 = dropWhile isspace s;
         negative = (take 1 s1 = ''-'');
         s2 = (if take 1 s1 = ''-'' \<or> take 1 s1 = ''+'' then drop 1 s1 else s1);
         v = strtoul_unsigned s2
     in if 2 ^ 64 \<le> v then - 1
        else if negative then - word_of_nat v else word_of_nat v)"

declare f32_ulp_from.simps [simp del]

declare updateInterval_loop.simps [simp del]

declare storeSSIDs_loop.simps [simp del]

section \<open>Properties of the queue\<close>

lemma circ_dist:
  fixes h t :: nat
  assumes "h < 32" "t < 32"
  shows "(t + 32 - h) mod 32 = (if h \<le> t then t - h else t + 32 - h)"
proof (cases "h \<le> t")
  case True
  then have "t + 32 - h = (t - h) + 32" by simp
  then have "(t + 32 - h) mod 32 = ((t - h) + 32) mod 32" by (rule arg_cong)
  also have "\<dots> = t - h" using assms by simp
  finally show ?thesis using True by simp
next
  case False
  then show ?thesis using assms by simp
qed

lemma queueAdd_fields:
  "head (queueAdd ssid timestamp q) = head q"
  "tail (queueAdd ssid timestamp q) = (if Suc (tail q) = BUFFER_SIZE then 0 else Suc (tail q))"
  "ssid_buffer (queueAdd ssid timestamp q) = (ssid_buffer q)[tail q := ssid]"
  "timestamp_buffer (queueAdd ssid timestamp q) = (timestamp_buffer q)[tail q := timestamp]"
  "empty_flag (queueAdd ssid timestamp q) = False"
  "full_flag (queueAdd ssid timestamp q) =
     (full_flag q \<or> (if Suc (tail q) = BUFFER_SIZE then 0 else Suc (tail q)) = head q)"
  by (simp_all add: queueAdd_def Let_def)

lemma queuePop_fields:
  "fst (queuePop q) = ssid_buffer q ! head q"
  "fst (snd (queuePop q)) = timestamp_buffer q ! head q"
  "tail (snd (snd (queuePop q))) = tail q"
  "head (snd (snd (queuePop q))) = (if Suc (head q) = BUFFER_SIZE then 0 else Suc (head q))"
  "ssid_buffer (snd (snd (queuePop q))) = ssid_buffer q"
  "timestamp_buffer (snd (snd (queuePop q))) = timestamp_buffer q"
  "full_flag (snd (snd (queuePop q))) = False"
  "empty_flag (snd (snd (queuePop q))) =
     (empty_flag q \<or> (if Suc (head q) = BUFFER_SIZE then 0 else Suc (head q)) = tail q)"
  by (simp_all add: queuePop_def Let_def)

lemma occupied_alt:
  assumes "queue_inv q"
  shows "occupied q =
    (if full_flag q then 32 else if head q \<le> tail q then tail q - head q
     else tail q + 32 - head q)"
  using assms circ_dist [of "head q" "tail q"]
  by (simp add: occupied_def queue_inv_def BUFFER_SIZE_def)

lemma queueAdd_inv:
  assumes "queue_inv q" and "\<not> full_flag q"
  shows "queue_inv (queueAdd ssid timestamp q)"
  using assms by (auto simp: queue_inv_def queueAdd_def Let_def BUFFER_SIZE_def)

lemma occupied_queueAdd:
  assumes "queue_inv q" and "\<not> full_flag q"
  shows "occupied (queueAdd ssid timestamp q) = Suc (occupied q)"
proof -
  have inv': "queue_inv (queueAdd ssid timestamp q)"
    using assms by (rule queueAdd_inv)
  have ht: "head q < 32" "tail q < 32" "head q = tail q \<longrightarrow> empty_flag q"
    using assms by (auto simp: queue_inv_def BUFFER_SIZE_def split: if_splits)
  show ?thesis
    unfolding occupied_alt [OF inv'] occupied_alt [OF assms(1)]
    using ht assms(2) by (auto simp: queueAdd_fields BUFFER_SIZE_def)
qed


lemma free_slot_index:
  assumes "queue_inv q" and "\<not> full_flag q"
  shows "(head q + occupied q) mod 32 = tail q"
proof -
  have ht: "head q < 32" "tail q < 32"
    using assms by (auto simp: queue_inv_def BUFFER_SIZE_def)
  show ?thesis
    unfolding occupied_alt [OF assms(1)]
    using ht assms(2) by (auto simp: mod_if)
qed

lemma used_slot_index:
  assumes "queue_inv q" and "\<not> full_flag q" and "k < occupied q"
  shows "(head q + k) mod 32 \<noteq> tail q"
proof -
  have ht: "head q < 32" "tail q < 32"
    using assms by (auto simp: queue_inv_def BUFFER_SIZE_def)
  show ?thesis
  proof (cases "head q \<le> tail q")
    case True
    then have "k < tail q - head q"
      using assms(2,3) by (simp add: occupied_alt [OF assms(1)])
    then have "head q + k < tail q" by simp
    then show ?thesis using ht by simp
  next
    case False
    then have k: "k < tail q + 32 - head q"
      using assms(2,3) by (simp add: occupied_alt [OF assms(1)])
    show ?thesis
    proof (cases "head q + k < 32")
      case True
      then show ?thesis using False by simp
    next
      case ge: False
      then have "(head q + k) mod 32 = head q + k - 32"
        using k ht by (simp add: mod_if)
      then show ?thesis using k ge by simp
    qed
  qed
qed

lemma slot_queueAdd_old:
  assumes "queue_inv q" and "\<not> full_flag q" and "k < occupied q"
  shows "slot (queueAdd ssid timestamp q) k = slot q k"
  using used_slot_index [OF assms]
  by (simp add: slot_def queueAdd_fields BUFFER_SIZE_def Let_def)

lemma slot_queueAdd_new:
  assumes "queue_inv q" and "\<not> full_flag q"
  shows "slot (queueAdd ssid timestamp q) (occupied q) = (ssid, timestamp)"
  using free_slot_index [OF assms] assms(1)
  by (simp add: slot_def queueAdd_fields BUFFER_SIZE_def Let_def queue_inv_def)

lemma queue_entries_queueAdd:
  assumes "queue_inv q" and "\<not> full_flag q"
  shows "queue_entries (queueAdd ssid timestamp q) = queue_entries q @ [(ssid, timestamp)]"
proof -
  have "map (slot (queueAdd ssid timestamp q)) [0..<occupied q] = map (slot q) [0..<occupied q]"
    using assms by (simp add: slot_queueAdd_old)
  then show ?thesis
    using assms by (simp add: queue_entries_def occupied_queueAdd slot_queueAdd_new)
qed

lemma occupied_pos:
  assumes "queue_inv q" and "\<not> empty_flag q"
  shows "0 < occupied q"
proof -
  have ht: "head q < 32" "tail q < 32"
    using assms by (auto simp: queue_inv_def BUFFER_SIZE_def)
  show ?thesis
    unfolding occupied_alt [OF assms(1)]
    using assms ht by (auto simp: queue_inv_def split: if_splits)
qed

lemma queuePop_inv:
  assumes "queue_inv q" and "\<not> empty_flag q"
  shows "queue_inv (snd (snd (queuePop q)))"
  using assms by (auto simp: queue_inv_def queuePop_fields BUFFER_SIZE_def split: if_splits)

lemma occupied_queuePop:
  assumes "queue_inv q" and "\<not> empty_flag q"
  shows "Suc (occupied (snd (snd (queuePop q)))) = occupied q"
proof -
  have ht: "head q < 32" "tail q < 32" "head q = tail q \<longrightarrow> full_flag q"
    "full_flag q \<longrightarrow> head q = tail q"
    using assms by (auto simp: queue_inv_def BUFFER_SIZE_def split: if_splits)
  show ?thesis
    unfolding occupied_alt [OF queuePop_inv [OF assms]] occupied_alt [OF assms(1)]
    using ht by (auto simp: queuePop_fields BUFFER_SIZE_def)
qed

lemma slot_queuePop:
  assumes "queue_inv q"
  shows "slot (snd (snd (queuePop q))) k = slot q (Suc k)"
proof -
  have h: "head q < 32"
    using assms by (simp add: queue_inv_def BUFFER_SIZE_def)
  have "((if Suc (head q) = 32 then 0 else Suc (head q)) + k) mod 32 = (head q + Suc k) mod 32"
  proof (cases "Suc (head q) = 32")
    case True
    then have "head q + Suc k = k + 32" by simp
    then have "(head q + Suc k) mod 32 = (k + 32) mod 32" by (rule arg_cong)
    then show ?thesis using True by simp
  next
    case False
    then show ?thesis by simp
  qed
  then show ?thesis
    by (simp add: slot_def queuePop_fields BUFFER_SIZE_def Let_def)
qed

lemma slot_0:
  assumes "queue_inv q"
  shows "slot q 0 = (fst (queuePop q), fst (snd (queuePop q)))"
  using assms by (simp add: slot_def queuePop_fields queue_inv_def BUFFER_SIZE_def Let_def)

lemma queue_entries_queuePop:
  assumes "queue_inv q" and "\<not> empty_flag q"
  shows "queue_entries q =
    (fst (queuePop q), fst (snd (queuePop q))) # queue_entries (snd (snd (queuePop q)))"
proof -
  let ?q' = "snd (snd (queuePop q))"
  have "queue_entries q = map (slot q) [0..<Suc (occupied ?q')]"
    by (simp add: queue_entries_def occupied_queuePop [OF assms])
  also have "\<dots> = slot q 0 # map (slot q) (map Suc [0..<occupied ?q'])"
    by (simp only: upt_conv_Cons [OF zero_less_Suc] list.map map_Suc_upt)
  also have "\<dots> = slot q 0 # map (slot ?q') [0..<occupied ?q']"
    by (simp add: slot_queuePop [OF assms(1)] comp_def)
  finally show ?thesis
    by (simp add: slot_0 [OF assms(1)] queue_entries_def)
qed

lemma INIT_TASK_queue_inv:
  assumes "INIT_TASK strtoul argc argv ssid_queue_static = Inr (cycle, q)"
  shows "queue_inv q \<and> empty_flag q"
  using assms
  by (auto simp: INIT_TASK_def queue_inv_def ssid_queue_static_def BUFFER_SIZE_def
      split: if_splits)

lemma occupied_empty:
  assumes "queue_inv q" and "empty_flag q"
  shows "queue_entries q = []"
  using assms by (auto simp: queue_entries_def occupied_def queue_inv_def BUFFER_SIZE_def split: if_splits)

lemma run_ops_entries:
  assumes "queue_inv q" and "guarded ops q"
  shows "fst (run_ops ops q) @ queue_entries (snd (run_ops ops q)) = queue_entries q @ enqueued ops
    \<and> length (fst (run_ops ops q)) = dequeues ops \<and> queue_inv (snd (run_ops ops q))"
  using assms
proof (induction ops q rule: run_ops.induct)
  case (1 q)
  then show ?case by simp
next
  case (2 ssid timestamp ops q)
  then have nf: "\<not> full_flag q" and g: "guarded ops (queueAdd ssid timestamp q)"
    by simp_all
  have inv': "queue_inv (queueAdd ssid timestamp q)"
    using "2.prems"(1) nf by (rule queueAdd_inv)
  show ?case
    using "2.IH" [OF inv' g] queue_entries_queueAdd [OF "2.prems"(1) nf]
    by simp
next
  case (3 ops q)
  obtain ssid timestamp q' where pop: "queuePop q = (ssid, timestamp, q')"
    by (cases "queuePop q") auto
  from "3.prems" have ne: "\<not> empty_flag q" and g: "guarded ops q'"
    by (simp_all add: pop)
  have inv': "queue_inv q'"
    using queuePop_inv [OF "3.prems"(1) ne] by (simp add: pop)
  have ent: "queue_entries q = (ssid, timestamp) # queue_entries q'"
    using queue_entries_queuePop [OF "3.prems"(1) ne] by (simp add: pop)
  have IH: "fst (run_ops ops q') @ queue_entries (snd (run_ops ops q')) = queue_entries q' @ enqueued ops
    \<and> length (fst (run_ops ops q')) = dequeues ops \<and> queue_inv (snd (run_ops ops q'))"
    using "3.IH" [OF pop [symmetric] refl refl inv' g] .
  show ?case
    using IH ent by (simp add: pop split_beta)
qed

text \<open>
  Claim C3. In every run of queue operations that starts on an empty queue and in which
  each enqueue finds the queue not full and each dequeue finds it not empty, the dequeues
  deliver the enqueued (identifier, timestamp) pairs in the order of their enqueueing:
  the delivered list is the front of the enqueued list, as long as the number of
  dequeues, and the rest is what the queue still holds, in the same order. Nothing is
  reordered, duplicated or lost.
\<close>

theorem fifo_order:
  assumes "queue_inv q" and "empty_flag q" and "guarded ops q"
  shows "fst (run_ops ops q) = take (dequeues ops) (enqueued ops) \<and>
         queue_entries (snd (run_ops ops q)) = drop (dequeues ops) (enqueued ops)"
proof -
  have e: "queue_entries q = []"
    using assms(1,2) by (rule occupied_empty)
  have "fst (run_ops ops q) @ queue_entries (snd (run_ops ops q)) = enqueued ops"
    and len: "length (fst (run_ops ops q)) = dequeues ops"
    using run_ops_entries [OF assms(1,3)] e by simp_all
  then show ?thesis
    by (metis append_eq_conv_conj)
qed

section \<open>Properties of the float arithmetic\<close>

lemma f32_ulp_from_pos:
  assumes "0 < u"
  shows "0 < f32_ulp_from u a"
  using assms
proof (induction u a rule: f32_ulp_from.induct)
  case (1 u a)
  show ?case
  proof (cases "u \<le> 0 \<or> a < 16777216 * u")
    case True
    then show ?thesis
      using "1.prems" by (subst f32_ulp_from.simps) simp
  next
    case False
    then have "0 < f32_ulp_from (2 * u) a"
      using "1.IH" "1.prems" by simp
    then show ?thesis
      using False by (subst f32_ulp_from.simps) simp
  qed
qed

lemma f32_ulp_pos: "0 < f32_ulp a"
  by (simp add: f32_ulp_def f32_ulp_from_pos)

lemma round_half_even_nonneg:
  assumes "0 \<le> y"
  shows "0 \<le> round_half_even y"
proof -
  have "0 \<le> \<lfloor>y\<rfloor>"
    using assms by simp
  then have "0 \<le> real_of_int \<lfloor>y\<rfloor>"
    by simp
  then show ?thesis
    by (simp add: round_half_even_def Let_def)
qed

lemma f32_round_nonneg:
  assumes "0 \<le> x"
  shows "0 \<le> f32_round x"
proof -
  have "0 \<le> \<bar>x\<bar> / f32_ulp \<bar>x\<bar>"
    using f32_ulp_pos [of "\<bar>x\<bar>"] by simp
  then have "0 \<le> round_half_even (\<bar>x\<bar> / f32_ulp \<bar>x\<bar>) * f32_ulp \<bar>x\<bar>"
    using f32_ulp_pos [of "\<bar>x\<bar>"] round_half_even_nonneg by (intro mult_nonneg_nonneg) simp_all
  moreover have "0 \<le> sgn x"
    using assms by (simp add: sgn_if)
  ultimately show ?thesis
    unfolding f32_round_def by (rule mult_nonneg_nonneg [rotated])
qed

lemma f32_ulp_from_eq:
  assumes "0 < u" and "a < 16777216 * (2 ^ k * u)"
    and "0 < k \<longrightarrow> 8388608 * (2 ^ k * u) \<le> a"
  shows "f32_ulp_from u a = 2 ^ k * u"
  using assms
proof (induction k arbitrary: u)
  case 0
  then show ?case
    by (subst f32_ulp_from.simps) simp
next
  case (Suc k)
  have "1 * u \<le> 2 ^ k * u"
    using Suc.prems(1) by (intro mult_right_mono) simp_all
  then have "16777216 * u \<le> 8388608 * (2 ^ Suc k * u)"
    by simp
  also have "\<dots> \<le> a"
    using Suc.prems(3) by simp
  finally have ge: "\<not> (u \<le> 0 \<or> a < 16777216 * u)"
    using Suc.prems(1) by simp
  have "f32_ulp_from (2 * u) a = 2 ^ k * (2 * u)"
  proof (rule Suc.IH)
    show "0 < 2 * u"
      using Suc.prems(1) by simp
    show "a < 16777216 * (2 ^ k * (2 * u))"
      using Suc.prems(2) by (simp add: mult.assoc)
    show "0 < k \<longrightarrow> 8388608 * (2 ^ k * (2 * u)) \<le> a"
      using Suc.prems(3) by (simp add: mult.assoc)
  qed
  then show ?case
    using ge by (subst f32_ulp_from.simps) (simp add: mult.assoc)
qed

lemma f32_ulp_eq:
  assumes "a < 16777216 * (2 ^ k / 2 ^ 149)"
    and "0 < k \<longrightarrow> 8388608 * (2 ^ k / 2 ^ 149) \<le> a"
  shows "f32_ulp a = 2 ^ k / 2 ^ 149"
  using f32_ulp_from_eq [of "1 / 2 ^ 149" a k] assms by (simp add: f32_ulp_def)

lemma f32_round_eq:
  assumes "\<bar>x\<bar> < 16777216 * (2 ^ k / 2 ^ 149)"
    and "0 < k \<longrightarrow> 8388608 * (2 ^ k / 2 ^ 149) \<le> \<bar>x\<bar>"
  shows "f32_round x =
    sgn x * (round_half_even (\<bar>x\<bar> / (2 ^ k / 2 ^ 149)) * (2 ^ k / 2 ^ 149))"
  unfolding f32_round_def f32_ulp_eq [OF assms] ..

lemma f32_round_0: "f32_round 0 = 0"
  by (simp add: f32_round_def)

text \<open>The timestamps and latencies of the clock readings used in the instances below.\<close>

lemma f32_of_int_values:
  "f32_of_int 0 = 0" "f32_of_int 7 = 7" "f32_of_int 10 = 10" "f32_of_int 5000 = 5000"
  "f32_of_int 7000 = 7000" "f32_of_int 500000000 = 500000000"
  "f32_of_int 1000000000 = 1000000000" "f32_of_int 999999999 = 1000000000"
proof -
  show "f32_of_int 0 = 0"
    by (simp add: f32_of_int_def f32_round_0)
  show "f32_of_int 7 = 7"
    unfolding f32_of_int_def of_int_numeral
    by (subst f32_round_eq [of _ 128]) (simp_all add: round_half_even_def)
  show "f32_of_int 10 = 10"
    unfolding f32_of_int_def of_int_numeral
    by (subst f32_round_eq [of _ 129]) (simp_all add: round_half_even_def)
  show "f32_of_int 5000 = 5000"
    unfolding f32_of_int_def of_int_numeral
    by (subst f32_round_eq [of _ 138]) (simp_all add: round_half_even_def)
  show "f32_of_int 7000 = 7000"
    unfolding f32_of_int_def of_int_numeral
    by (subst f32_round_eq [of _ 138]) (simp_all add: round_half_even_def)
  show "f32_of_int 500000000 = 500000000"
    unfolding f32_of_int_def of_int_numeral
    by (subst f32_round_eq [of _ 154]) (simp_all add: round_half_even_def)
  show "f32_of_int 1000000000 = 1000000000"
    unfolding f32_of_int_def of_int_numeral
    by (subst f32_round_eq [of _ 155]) (simp_all add: round_half_even_def)
  show "f32_of_int 999999999 = 1000000000"
    unfolding f32_of_int_def of_int_numeral
    by (subst f32_round_eq [of _ 155]) (simp_all add: round_half_even_def)
qed

lemma f32_div_values:
  "f32_div 0 1000000000 = 0"
  "f32_div 5000 1000000000 = 2748779 / 549755813888"
  "f32_div 7000 1000000000 = 15393163 / 2199023255552"
  "f32_div 500000000 1000000000 = 1 / 2"
  "f32_div 1000000000 1000000000 = 1"
proof -
  show "f32_div 0 1000000000 = 0"
    by (simp add: f32_div_def f32_round_0)
  show "f32_div 5000 1000000000 = 2748779 / 549755813888"
    unfolding f32_div_def
    by (subst f32_round_eq [of _ 108]) (simp_all add: round_half_even_def)
  show "f32_div 7000 1000000000 = 15393163 / 2199023255552"
    unfolding f32_div_def
    by (subst f32_round_eq [of _ 108]) (simp_all add: round_half_even_def)
  show "f32_div 500000000 1000000000 = 1 / 2"
    unfolding f32_div_def
    by (subst f32_round_eq [of _ 125]) (simp_all add: round_half_even_def)
  show "f32_div 1000000000 1000000000 = 1"
    unfolding f32_div_def
    by (subst f32_round_eq [of _ 126]) (simp_all add: round_half_even_def)
qed

lemma f32_add_values:
  "f32_add 7 0 = 7" "f32_add 10 0 = 10"
  "f32_add 10 (2748779 / 549755813888) = 10485765 / 1048576"
  "f32_add 10 (15393163 / 2199023255552) = 10485767 / 1048576"
  "f32_add 10 (1 / 2) = 21 / 2" "f32_add 10 1 = 11"
proof -
  show "f32_add 7 0 = 7"
    unfolding f32_add_def
    by (subst f32_round_eq [of _ 128]) (simp_all add: round_half_even_def)
  show "f32_add 10 0 = 10"
    unfolding f32_add_def
    by (subst f32_round_eq [of _ 129]) (simp_all add: round_half_even_def)
  show "f32_add 10 (2748779 / 549755813888) = 10485765 / 1048576"
    unfolding f32_add_def
    by (subst f32_round_eq [of _ 129]) (simp_all add: round_half_even_def)
  show "f32_add 10 (15393163 / 2199023255552) = 10485767 / 1048576"
    unfolding f32_add_def
    by (subst f32_round_eq [of _ 129]) (simp_all add: round_half_even_def)
  show "f32_add 10 (1 / 2) = 21 / 2"
    unfolding f32_add_def
    by (subst f32_round_eq [of _ 129]) (simp_all add: round_half_even_def)
  show "f32_add 10 1 = 11"
    unfolding f32_add_def
    by (subst f32_round_eq [of _ 129]) (simp_all add: round_half_even_def)
qed

lemma f32_sub_values:
  "f32_sub (10485765 / 1048576) 10 = 5 / 1048576"
  "f32_sub (10485767 / 1048576) 10 = 7 / 1048576"
  "f32_sub (21 / 2) 10 = 1 / 2"
proof -
  show "f32_sub (10485765 / 1048576) 10 = 5 / 1048576"
    unfolding f32_sub_def
    by (subst f32_round_eq [of _ 108]) (simp_all add: round_half_even_def)
  show "f32_sub (10485767 / 1048576) 10 = 7 / 1048576"
    unfolding f32_sub_def
    by (subst f32_round_eq [of _ 108]) (simp_all add: round_half_even_def)
  show "f32_sub (21 / 2) 10 = 1 / 2"
    unfolding f32_sub_def
    by (subst f32_round_eq [of _ 125]) (simp_all add: round_half_even_def)
qed

lemma getCurrentTimestamp_values:
  "getCurrentTimestamp \<lparr>tv_sec = 7, tv_nsec = 0\<rparr> = 7"
  "getCurrentTimestamp \<lparr>tv_sec = 10, tv_nsec = 0\<rparr> = 10"
  "getCurrentTimestamp \<lparr>tv_sec = 10, tv_nsec = 5000\<rparr> = 10485765 / 1048576"
  "getCurrentTimestamp \<lparr>tv_sec = 10, tv_nsec = 7000\<rparr> = 10485767 / 1048576"
  "getCurrentTimestamp \<lparr>tv_sec = 10, tv_nsec = 500000000\<rparr> = 21 / 2"
  "getCurrentTimestamp \<lparr>tv_sec = 10, tv_nsec = 999999999\<rparr> = 11"
  by (simp_all add: getCurrentTimestamp_def f32_of_int_values f32_div_values f32_add_values)

text \<open>
  Rounding is monotone on the non-negative reals and leaves a float as it is. So
  \<open>getCurrentTimestamp\<close> is monotone on clock readings, although it rounds three times.
\<close>

lemma f32_ulp_from_shape:
  assumes "0 < u"
  shows "\<exists>j. f32_ulp_from u a = 2 ^ j * u \<and> a < 16777216 * (2 ^ j * u) \<and>
    (0 < j \<longrightarrow> 8388608 * (2 ^ j * u) \<le> a)"
  using assms
proof (induction u a rule: f32_ulp_from.induct)
  case (1 u a)
  show ?case
  proof (cases "u \<le> 0 \<or> a < 16777216 * u")
    case True
    then have "f32_ulp_from u a = u"
      by (subst f32_ulp_from.simps) simp
    then have "f32_ulp_from u a = 2 ^ 0 * u \<and> a < 16777216 * (2 ^ 0 * u) \<and>
        (0 < (0::nat) \<longrightarrow> 8388608 * (2 ^ 0 * u) \<le> a)"
      using True "1.prems" by simp
    then show ?thesis
      by blast
  next
    case False
    then have ge: "16777216 * u \<le> a"
      by simp
    have "\<exists>j. f32_ulp_from (2 * u) a = 2 ^ j * (2 * u) \<and> a < 16777216 * (2 ^ j * (2 * u)) \<and>
        (0 < j \<longrightarrow> 8388608 * (2 ^ j * (2 * u)) \<le> a)"
      using "1.IH" [OF False] "1.prems" by simp
    then obtain j where j: "f32_ulp_from (2 * u) a = 2 ^ j * (2 * u)"
      "a < 16777216 * (2 ^ j * (2 * u))" "0 < j \<longrightarrow> 8388608 * (2 ^ j * (2 * u)) \<le> a"
      by blast
    have eq: "f32_ulp_from u a = f32_ulp_from (2 * u) a"
      using False by (subst f32_ulp_from.simps) simp
    have low: "8388608 * (2 ^ Suc j * u) \<le> a"
    proof (cases "0 < j")
      case True
      then show ?thesis
        using j(3) by (simp add: mult.assoc)
    next
      case False
      then show ?thesis
        using ge by simp
    qed
    have "f32_ulp_from u a = 2 ^ Suc j * u \<and> a < 16777216 * (2 ^ Suc j * u) \<and>
        (0 < Suc j \<longrightarrow> 8388608 * (2 ^ Suc j * u) \<le> a)"
      using j(1,2) low by (simp add: eq mult.assoc)
    then show ?thesis
      by blast
  qed
qed

lemma f32_ulp_shape:
  obtains k where "f32_ulp a = 2 ^ k / 2 ^ 149" and "a < 16777216 * (2 ^ k / 2 ^ 149)"
    and "0 < k \<longrightarrow> 8388608 * (2 ^ k / 2 ^ 149) \<le> a"
proof -
  have "\<exists>j. f32_ulp_from (1 / 2 ^ 149) a = 2 ^ j * (1 / 2 ^ 149) \<and>
      a < 16777216 * (2 ^ j * (1 / 2 ^ 149)) \<and>
      (0 < j \<longrightarrow> 8388608 * (2 ^ j * (1 / 2 ^ 149)) \<le> a)"
    by (rule f32_ulp_from_shape) simp
  then obtain j where "f32_ulp_from (1 / 2 ^ 149) a = 2 ^ j * (1 / 2 ^ 149)"
    "a < 16777216 * (2 ^ j * (1 / 2 ^ 149))"
    "0 < j \<longrightarrow> 8388608 * (2 ^ j * (1 / 2 ^ 149)) \<le> a"
    by blast
  then show ?thesis
    using that [of j] by (simp add: f32_ulp_def)
qed

lemma round_half_even_cases:
  "round_half_even y = of_int \<lfloor>y\<rfloor> \<or> round_half_even y = of_int \<lfloor>y\<rfloor> + 1"
  by (simp add: round_half_even_def Let_def)

lemma round_half_even_mono:
  assumes "x \<le> y"
  shows "round_half_even x \<le> round_half_even y"
proof (cases "\<lfloor>x\<rfloor> < \<lfloor>y\<rfloor>")
  case True
  then have "real_of_int \<lfloor>x\<rfloor> + 1 \<le> real_of_int \<lfloor>y\<rfloor>"
    by linarith
  moreover have "round_half_even x \<le> real_of_int \<lfloor>x\<rfloor> + 1"
    using round_half_even_cases [of x] by linarith
  moreover have "real_of_int \<lfloor>y\<rfloor> \<le> round_half_even y"
    using round_half_even_cases [of y] by linarith
  ultimately show ?thesis
    by linarith
next
  case False
  then have eq: "\<lfloor>x\<rfloor> = \<lfloor>y\<rfloor>"
    using floor_mono [OF assms] by linarith
  show ?thesis
    using assms by (auto simp: round_half_even_def Let_def eq)
qed

lemma round_half_even_of_int: "round_half_even (of_int n) = of_int n"
  by (simp add: round_half_even_def)

lemma round_half_even_small_frac:
  assumes "0 \<le> f" and "f < 1 / 2"
  shows "round_half_even (of_int M + f) = of_int M"
proof -
  have "\<lfloor>real_of_int M + f\<rfloor> = M"
    using assms by linarith
  then show ?thesis
    using assms by (simp add: round_half_even_def Let_def)
qed

lemma round_half_even_tie:
  "round_half_even (of_int M + 1 / 2) = (if even M then of_int M else of_int M + 1)"
proof -
  have "\<lfloor>real_of_int M + 1 / 2\<rfloor> = M"
    by linarith
  then show ?thesis
    by (simp add: round_half_even_def Let_def)
qed

lemma round_half_even_int:
  "\<exists>M. round_half_even y = of_int M"
  using round_half_even_cases [of y] by (metis of_int_1 of_int_add)

lemma f32_round_pos_eq:
  assumes "0 < a" and "f32_ulp a = u"
  shows "f32_round a = round_half_even (a / u) * u"
  using assms by (simp add: f32_round_def)

lemma f32_ulp_order:
  fixes a b :: real
  assumes "0 \<le> a" and "a \<le> b"
    and "a < 16777216 * (2 ^ ka / 2 ^ 149)" and "0 < ka \<longrightarrow> 8388608 * (2 ^ ka / 2 ^ 149) \<le> a"
    and "b < 16777216 * (2 ^ kb / 2 ^ 149)" and "0 < kb \<longrightarrow> 8388608 * (2 ^ kb / 2 ^ 149) \<le> b"
  shows "ka \<le> kb"
proof (rule ccontr)
  assume "\<not> ka \<le> kb"
  then have lt: "kb < ka"
    by simp
  then have "(2::real) ^ Suc kb \<le> 2 ^ ka"
    by (intro power_increasing) simp_all
  then have "2 * (2 ^ kb / 2 ^ 149) \<le> (2 ^ ka / 2 ^ 149 :: real)"
    by (simp add: divide_right_mono)
  then have "16777216 * (2 ^ kb / 2 ^ 149) \<le> (8388608 * (2 ^ ka / 2 ^ 149) :: real)"
    by simp
  also have "\<dots> \<le> a"
    using lt assms(4) by simp
  finally show False
    using assms(2,5) by simp
qed

lemma f32_round_mono:
  assumes "0 \<le> a" and "a \<le> b"
  shows "f32_round a \<le> f32_round b"
proof (cases "a = 0")
  case True
  then show ?thesis
    using assms f32_round_nonneg [of b] by (simp add: f32_round_0)
next
  case False
  then have pa: "0 < a" and pb: "0 < b"
    using assms by simp_all
  obtain ka where ka: "f32_ulp a = 2 ^ ka / 2 ^ 149" "a < 16777216 * (2 ^ ka / 2 ^ 149)"
    "0 < ka \<longrightarrow> 8388608 * (2 ^ ka / 2 ^ 149) \<le> a"
    by (rule f32_ulp_shape)
  obtain kb where kb: "f32_ulp b = 2 ^ kb / 2 ^ 149" "b < 16777216 * (2 ^ kb / 2 ^ 149)"
    "0 < kb \<longrightarrow> 8388608 * (2 ^ kb / 2 ^ 149) \<le> b"
    by (rule f32_ulp_shape)
  define ua :: real where "ua = 2 ^ ka / 2 ^ 149"
  define ub :: real where "ub = 2 ^ kb / 2 ^ 149"
  have ua: "0 < ua" and ub: "0 < ub"
    by (simp_all add: ua_def ub_def)
  have ra: "f32_round a = round_half_even (a / ua) * ua"
    unfolding ua_def by (rule f32_round_pos_eq [OF pa ka(1)])
  have rb: "f32_round b = round_half_even (b / ub) * ub"
    unfolding ub_def by (rule f32_round_pos_eq [OF pb kb(1)])
  have a_lt: "a < 16777216 * ua"
    unfolding ua_def by (rule ka(2))
  have b_ge: "0 < kb \<longrightarrow> 8388608 * ub \<le> b"
    unfolding ub_def by (rule kb(3))
  have le: "ka \<le> kb"
    using assms ka(2,3) kb(2,3) by (rule f32_ulp_order)
  show ?thesis
  proof (cases "ka = kb")
    case True
    then have "ua = ub"
      by (simp add: ua_def ub_def)
    moreover have "a / ub \<le> b / ub"
      using assms(2) ub by (simp add: divide_right_mono)
    ultimately show ?thesis
      unfolding ra rb using ub round_half_even_mono [of "a / ub" "b / ub"]
      by (simp add: mult_right_mono)
  next
    case False
    then have lt: "ka < kb"
      using le by simp
    then have "(2::real) ^ Suc ka \<le> 2 ^ kb"
      by (intro power_increasing) simp_all
    then have u2: "2 * ua \<le> ub"
      by (simp add: ua_def ub_def divide_right_mono)
    have "a / ua \<le> 16777216"
      using a_lt ua by (simp add: pos_divide_le_eq)
    then have "round_half_even (a / ua) \<le> round_half_even 16777216"
      by (rule round_half_even_mono)
    then have "round_half_even (a / ua) \<le> 16777216"
      using round_half_even_of_int [of 16777216] by simp
    then have upper: "f32_round a \<le> 16777216 * ua"
      unfolding ra using ua by (simp add: mult_right_mono)
    have "8388608 \<le> b / ub"
      using b_ge lt ub by (simp add: pos_le_divide_eq)
    then have "round_half_even 8388608 \<le> round_half_even (b / ub)"
      by (rule round_half_even_mono)
    then have "8388608 \<le> round_half_even (b / ub)"
      using round_half_even_of_int [of 8388608] by simp
    then have lower: "8388608 * ub \<le> f32_round b"
      unfolding rb using ub by (simp add: mult_right_mono)
    have "16777216 * ua \<le> 8388608 * ub"
      using u2 by simp
    then show ?thesis
      using upper lower by linarith
  qed
qed

lemma f32_round_shape:
  fixes a :: real
  assumes "0 < a"
  obtains k M u where "u = 2 ^ k / 2 ^ 149" and "0 < u" and "f32_ulp a = u"
    and "a < 16777216 * u" and "0 < k \<longrightarrow> 8388608 * u \<le> a"
    and "f32_round a = of_int M * u" and "round_half_even (a / u) = of_int M"
    and "M \<le> 16777216" and "0 \<le> M" and "0 < k \<longrightarrow> 8388608 \<le> M"
proof -
  obtain k where k: "f32_ulp a = 2 ^ k / 2 ^ 149" "a < 16777216 * (2 ^ k / 2 ^ 149)"
    "0 < k \<longrightarrow> 8388608 * (2 ^ k / 2 ^ 149) \<le> a"
    by (rule f32_ulp_shape)
  define u :: real where "u = 2 ^ k / 2 ^ 149"
  have u: "0 < u"
    by (simp add: u_def)
  have ulp: "f32_ulp a = u"
    unfolding u_def by (rule k(1))
  have lt: "a < 16777216 * u"
    unfolding u_def by (rule k(2))
  have ge: "0 < k \<longrightarrow> 8388608 * u \<le> a"
    unfolding u_def by (rule k(3))
  obtain M where M: "round_half_even (a / u) = of_int M"
    using round_half_even_int by blast
  have r: "f32_round a = of_int M * u"
    using f32_round_pos_eq [OF assms ulp] by (simp add: M)
  have "a / u \<le> 16777216"
    using lt u by (simp add: pos_divide_le_eq)
  then have "round_half_even (a / u) \<le> round_half_even 16777216"
    by (rule round_half_even_mono)
  then have "real_of_int M \<le> 16777216"
    using round_half_even_of_int [of 16777216] by (simp add: M)
  then have M_le: "M \<le> 16777216"
    by linarith
  have "0 \<le> round_half_even (a / u)"
    using assms u by (intro round_half_even_nonneg) simp
  then have M_ge0: "0 \<le> M"
    by (simp add: M)
  have M_ge: "0 < k \<longrightarrow> 8388608 \<le> M"
  proof
    assume "0 < k"
    then have "8388608 \<le> a / u"
      using ge u by (simp add: pos_le_divide_eq)
    then have "round_half_even 8388608 \<le> round_half_even (a / u)"
      by (rule round_half_even_mono)
    then have "8388608 \<le> real_of_int M"
      using round_half_even_of_int [of 8388608] by (simp add: M)
    then show "8388608 \<le> M"
      by linarith
  qed
  show ?thesis
    using that [OF u_def u ulp lt ge r M M_le M_ge0 M_ge] .
qed

lemma f32_round_eq_abs:
  fixes u :: real
  assumes "u = 2 ^ k / 2 ^ 149" and "0 < x" and "x < 16777216 * u"
    and "0 < k \<longrightarrow> 8388608 * u \<le> x"
  shows "f32_round x = round_half_even (x / u) * u"
proof -
  have "f32_ulp x = 2 ^ k / 2 ^ 149"
  proof (rule f32_ulp_eq)
    show "x < 16777216 * (2 ^ k / 2 ^ 149)"
      using assms(3) unfolding assms(1) .
    show "0 < k \<longrightarrow> 8388608 * (2 ^ k / 2 ^ 149) \<le> x"
      using assms(4) unfolding assms(1) .
  qed
  then have "f32_ulp x = u"
    by (simp only: assms(1))
  then show ?thesis
    using assms(2) by (rule f32_round_pos_eq [rotated])
qed

lemma f32_round_idem:
  assumes "0 \<le> a"
  shows "f32_round (f32_round a) = f32_round a"
proof (cases "a = 0")
  case True
  then show ?thesis
    by (simp add: f32_round_0)
next
  case False
  then have pa: "0 < a"
    using assms by simp
  obtain k M u where s: "u = 2 ^ k / 2 ^ 149" "0 < u" "f32_ulp a = u"
    "a < 16777216 * u" "0 < k \<longrightarrow> 8388608 * u \<le> a"
    "f32_round a = of_int M * u" "round_half_even (a / u) = of_int M"
    "M \<le> 16777216" "0 \<le> M" "0 < k \<longrightarrow> 8388608 \<le> M"
    using f32_round_shape [OF pa] by blast
  show ?thesis
  proof (cases "M = 0")
    case True
    then show ?thesis
      by (simp add: s(6) f32_round_0)
  next
    case M0: False
    then have Mpos: "0 < M"
      using s(9) by simp
    then have Spos: "0 < real_of_int M * u"
      using s(2) by simp
    show ?thesis
    proof (cases "M = 16777216")
      case True
      have u2: "2 * u = 2 ^ Suc k / 2 ^ 149"
        by (simp add: s(1))
      have "f32_round (real_of_int M * u) = round_half_even (real_of_int M * u / (2 * u)) * (2 * u)"
        using u2 Spos
      proof (rule f32_round_eq_abs)
        show "real_of_int M * u < 16777216 * (2 * u)"
          using s(2) by (simp add: True)
        show "0 < Suc k \<longrightarrow> 8388608 * (2 * u) \<le> real_of_int M * u"
          by (simp add: True)
      qed
      also have "real_of_int M * u / (2 * u) = of_int 8388608"
        using s(2) by (simp add: True)
      also have "round_half_even (of_int 8388608) * (2 * u) = real_of_int M * u"
        by (simp only: round_half_even_of_int) (simp add: True)
      finally show ?thesis
        by (simp add: s(6))
    next
      case False
      then have "M < 16777216"
        using s(8) by simp
      then have Mlt: "real_of_int M < 16777216"
        by simp
      have "f32_round (real_of_int M * u) = round_half_even (real_of_int M * u / u) * u"
        using s(1) Spos
      proof (rule f32_round_eq_abs)
        show "real_of_int M * u < 16777216 * u"
          using Mlt s(2) by simp
        show "0 < k \<longrightarrow> 8388608 * u \<le> real_of_int M * u"
        proof
          assume "0 < k"
          then have "8388608 \<le> real_of_int M"
            using s(10) by simp
          then show "8388608 * u \<le> real_of_int M * u"
            using s(2) by simp
        qed
      qed
      also have "real_of_int M * u / u = of_int M"
        using s(2) by simp
      finally show ?thesis
        by (simp add: s(6) round_half_even_of_int)
    qed
  qed
qed

lemma pow2_div_small:
  assumes "k \<le> n"
  shows "(2::real) ^ k / 2 ^ n = 1 / 2 ^ (n - k)"
proof -
  have "(2::real) ^ n = 2 ^ k * 2 ^ (n - k)"
    using assms by (simp flip: power_add)
  then show ?thesis
    by simp
qed

lemma pow2_div_large:
  assumes "n < k"
  shows "(2::real) ^ k / 2 ^ n = 2 * 2 ^ (k - Suc n)"
proof -
  have "k = n + Suc (k - Suc n)"
    using assms by simp
  then have "(2::real) ^ k = 2 ^ (n + Suc (k - Suc n))"
    by (rule arg_cong)
  then have "(2::real) ^ k = 2 ^ n * (2 * 2 ^ (k - Suc n))"
    by (simp only: power_add power_Suc)
  then show ?thesis
    by simp
qed

lemma f32_round_up_next:
  fixes i :: int
  assumes "real_of_int i < f32_round (real_of_int i)" and "0 \<le> i"
  shows "f32_round (f32_round (real_of_int i) + 1) = f32_round (real_of_int i)"
proof -
  have "i \<noteq> 0"
    using assms(1) by (auto simp: f32_round_0)
  then have pn: "0 < real_of_int i"
    using assms(2) by simp
  obtain k M u where s: "u = 2 ^ k / 2 ^ 149" "0 < u" "f32_ulp (real_of_int i) = u"
    "real_of_int i < 16777216 * u" "0 < k \<longrightarrow> 8388608 * u \<le> real_of_int i"
    "f32_round (real_of_int i) = of_int M * u" "round_half_even (real_of_int i / u) = of_int M"
    "M \<le> 16777216" "0 \<le> M" "0 < k \<longrightarrow> 8388608 \<le> M"
    using f32_round_shape [OF pn] by blast
  have up: "real_of_int i < real_of_int M * u"
    using assms(1) by (simp only: s(6))
  have k150: "149 < k"
  proof (rule ccontr)
    assume "\<not> 149 < k"
    then have "k \<le> 149"
      by simp
    then have "u = 1 / 2 ^ (149 - k)"
      by (simp only: s(1) pow2_div_small)
    then have "real_of_int i / u = real_of_int (i * 2 ^ (149 - k))"
      by simp
    then have "round_half_even (real_of_int i / u) = real_of_int i / u"
      by (simp only: round_half_even_of_int)
    then have "real_of_int M * u = real_of_int i"
      using s(2) by (simp add: s(7))
    then show False
      using up by simp
  qed
  define j where "j = k - Suc 149"
  have uj: "u = 2 * 2 ^ j"
    unfolding j_def using k150 by (simp only: s(1) pow2_div_large)
  have u2: "2 \<le> u"
    by (simp add: uj)
  have kpos: "0 < k"
    using k150 by simp
  have low: "8388608 * u \<le> real_of_int i"
    using s(5) kpos by simp
  have Mge: "8388608 \<le> M"
    using s(10) kpos by simp
  have Spos: "0 < real_of_int M * u + 1"
    using pn up by linarith
  show ?thesis
  proof (cases "M = 16777216")
    case True
    have e2: "2 * u = 2 ^ Suc k / 2 ^ 149"
      unfolding s(1) by simp
    have "f32_round (real_of_int M * u + 1) =
        round_half_even ((real_of_int M * u + 1) / (2 * u)) * (2 * u)"
      using e2 Spos
    proof (rule f32_round_eq_abs)
      show "real_of_int M * u + 1 < 16777216 * (2 * u)"
        using u2 by (simp add: True)
      show "0 < Suc k \<longrightarrow> 8388608 * (2 * u) \<le> real_of_int M * u + 1"
        by (simp add: True)
    qed
    also have "(real_of_int M * u + 1) / (2 * u) = of_int 8388608 + 1 / (2 * u)"
      using s(2) by (simp add: True field_simps)
    also have "round_half_even (of_int 8388608 + 1 / (2 * u)) = of_int 8388608"
    proof (rule round_half_even_small_frac)
      show "0 \<le> 1 / (2 * u)"
        using s(2) by simp
      have "1 / (2 * u) \<le> 1 / 4"
        using u2 s(2) by (simp add: field_simps)
      then show "1 / (2 * u) < 1 / 2"
        by simp
    qed
    finally show ?thesis
      by (simp add: s(6) True)
  next
    case False
    then have "M \<le> 16777215"
      using s(8) by simp
    then have Mle: "real_of_int M \<le> 16777215"
      by linarith
    have "f32_round (real_of_int M * u + 1) =
        round_half_even ((real_of_int M * u + 1) / u) * u"
      using s(1) Spos
    proof (rule f32_round_eq_abs)
      have "real_of_int M * u \<le> 16777215 * u"
        using Mle s(2) by (simp add: mult_right_mono)
      moreover have "16777215 * u + 1 < 16777216 * u"
        using u2 by simp
      ultimately show "real_of_int M * u + 1 < 16777216 * u"
        by linarith
      show "0 < k \<longrightarrow> 8388608 * u \<le> real_of_int M * u + 1"
        using low up by simp
    qed
    also have "(real_of_int M * u + 1) / u = of_int M + 1 / u"
      using s(2) by (simp add: field_simps)
    also have "round_half_even (of_int M + 1 / u) = of_int M"
    proof (cases "j = 0")
      case False
      then have "(2::real) ^ 1 \<le> 2 ^ j"
        by (intro power_increasing) simp_all
      then have "4 \<le> u"
        by (simp add: uj)
      then have "1 / u \<le> 1 / 4"
        using s(2) by (simp add: field_simps)
      then have "1 / u < 1 / 2"
        by simp
      moreover have "0 \<le> 1 / u"
        using s(2) by simp
      ultimately show ?thesis
        by (rule round_half_even_small_frac [rotated])
    next
      case True
      then have u: "u = 2"
        by (simp add: uj)
      have Mi: "real_of_int M = round_half_even (real_of_int i / 2)"
        using s(7) by (simp add: u)
      have up2: "real_of_int i < real_of_int M * 2"
        using up by (simp add: u)
      have "even M"
      proof (cases "even i")
        case True
        then obtain q where "i = 2 * q"
          by (elim evenE)
        then have "real_of_int i / 2 = of_int q"
          by simp
        then have "real_of_int M = of_int q"
          by (simp only: Mi round_half_even_of_int)
        then show ?thesis
          using up2 \<open>i = 2 * q\<close> by simp
      next
        case False
        then obtain q where q: "i = 2 * q + 1"
          by (elim oddE)
        then have "real_of_int i / 2 = of_int q + 1 / 2"
          by simp
        then have M: "real_of_int M = (if even q then of_int q else of_int q + 1)"
          by (simp only: Mi round_half_even_tie)
        show ?thesis
        proof (cases "even q")
          case True
          then have "real_of_int M = of_int q"
            using M by simp
          then show ?thesis
            using up2 q by simp
        next
          case False
          then have "real_of_int M = of_int (q + 1)"
            using M by simp
          then have "M = q + 1"
            by (simp only: of_int_eq_iff)
          then show ?thesis
            using False by simp
        qed
      qed
      then show ?thesis
        using round_half_even_tie [of M] by (simp add: u)
    qed
    finally show ?thesis
      by (simp add: s(6))
  qed
qed

lemma f32_round_1: "f32_round 1 = 1"
  by (subst f32_round_eq [of _ 126]) (simp_all add: round_half_even_def)

lemma f32_round_billion: "f32_round 1000000000 = 1000000000"
  by (subst f32_round_eq [of _ 155]) (simp_all add: round_half_even_def)

lemma nsec_quotient_bounds:
  assumes "0 \<le> n" and "n < 1000000000"
  shows "0 \<le> f32_div (f32_of_int n) (f32_of_int 1000000000)"
    and "f32_div (f32_of_int n) (f32_of_int 1000000000) \<le> 1"
proof -
  have g: "f32_of_int 1000000000 = 1000000000"
    using f32_round_billion by (simp add: f32_of_int_def)
  have n0: "0 \<le> f32_of_int n"
    using assms(1) by (simp add: f32_of_int_def f32_round_nonneg)
  have "f32_round (real_of_int n) \<le> f32_round 1000000000"
    using assms by (intro f32_round_mono) simp_all
  then have n1: "f32_of_int n \<le> 1000000000"
    by (simp add: f32_of_int_def f32_round_billion)
  show "0 \<le> f32_div (f32_of_int n) (f32_of_int 1000000000)"
    using n0 by (simp add: f32_div_def g f32_round_nonneg)
  have "f32_round (f32_of_int n / 1000000000) \<le> f32_round 1"
    using n0 n1 by (intro f32_round_mono) simp_all
  then show "f32_div (f32_of_int n) (f32_of_int 1000000000) \<le> 1"
    by (simp add: f32_div_def g f32_round_1)
qed

lemma nsec_quotient_mono:
  assumes "0 \<le> m" and "m \<le> n"
  shows "f32_div (f32_of_int m) (f32_of_int 1000000000) \<le>
    f32_div (f32_of_int n) (f32_of_int 1000000000)"
proof -
  have g: "f32_of_int 1000000000 = 1000000000"
    using f32_round_billion by (simp add: f32_of_int_def)
  have m0: "0 \<le> f32_of_int m"
    using assms(1) by (simp add: f32_of_int_def f32_round_nonneg)
  have "f32_of_int m \<le> f32_of_int n"
    unfolding f32_of_int_def using assms by (intro f32_round_mono) simp_all
  then have "f32_of_int m / 1000000000 \<le> f32_of_int n / 1000000000"
    by (simp add: divide_right_mono)
  moreover have "0 \<le> f32_of_int m / 1000000000"
    using m0 by simp
  ultimately show ?thesis
    unfolding f32_div_def g by (intro f32_round_mono)
qed

lemma getCurrentTimestamp_mono:
  assumes "clock_reading a" and "clock_reading b" and "total_nsec a \<le> total_nsec b"
  shows "getCurrentTimestamp a \<le> getCurrentTimestamp b"
proof -
  define sa na sb nb where "sa = sint (tv_sec a)" and "na = sint (tv_nsec a)"
    and "sb = sint (tv_sec b)" and "nb = sint (tv_nsec b)"
  define Qa Qb where "Qa = f32_div (f32_of_int na) (f32_of_int 1000000000)"
    and "Qb = f32_div (f32_of_int nb) (f32_of_int 1000000000)"
  define Sa Sb where "Sa = f32_of_int sa" and "Sb = f32_of_int sb"
  have ra: "0 \<le> sa" "0 \<le> na" "na < 1000000000"
    using assms(1) by (simp_all add: clock_reading_def sa_def na_def)
  have rb: "0 \<le> sb" "0 \<le> nb" "nb < 1000000000"
    using assms(2) by (simp_all add: clock_reading_def sb_def nb_def)
  have tot: "sa * 1000000000 + na \<le> sb * 1000000000 + nb"
    using assms(3) by (simp add: total_nsec_def sa_def na_def sb_def nb_def)
  have Ga: "getCurrentTimestamp a = f32_round (Sa + Qa)"
    by (simp add: getCurrentTimestamp_def f32_add_def Sa_def Qa_def sa_def na_def)
  have Gb: "getCurrentTimestamp b = f32_round (Sb + Qb)"
    by (simp add: getCurrentTimestamp_def f32_add_def Sb_def Qb_def sb_def nb_def)
  have Qa: "0 \<le> Qa" "Qa \<le> 1"
    unfolding Qa_def using ra(2,3) by (rule nsec_quotient_bounds)+
  have Qb: "0 \<le> Qb" "Qb \<le> 1"
    unfolding Qb_def using rb(2,3) by (rule nsec_quotient_bounds)+
  have Sa: "0 \<le> Sa"
    using ra(1) by (simp add: Sa_def f32_of_int_def f32_round_nonneg)
  have Sb: "0 \<le> Sb"
    using rb(1) by (simp add: Sb_def f32_of_int_def f32_round_nonneg)
  consider "sa = sb" "na \<le> nb" | "sa < sb"
    using tot ra rb by linarith
  then show ?thesis
  proof cases
    case 1
    then have "Qa \<le> Qb"
      unfolding Qa_def Qb_def using ra(2) by (intro nsec_quotient_mono)
    then have "Sa + Qa \<le> Sb + Qb"
      using 1(1) by (simp add: Sa_def Sb_def)
    moreover have "0 \<le> Sa + Qa"
      using Sa Qa by simp
    ultimately show ?thesis
      unfolding Ga Gb by (intro f32_round_mono)
  next
    case 2
    have idem: "f32_round Sb = Sb"
      unfolding Sb_def f32_of_int_def using rb(1) by (intro f32_round_idem) simp
    have "f32_round Sb \<le> f32_round (Sb + Qb)"
      using Sb Qb by (intro f32_round_mono) simp_all
    then have lower: "Sb \<le> f32_round (Sb + Qb)"
      by (simp only: idem)
    have SaSb: "Sa \<le> Sb"
      unfolding Sa_def Sb_def f32_of_int_def using ra(1) 2 by (intro f32_round_mono) simp_all
    have "f32_round (Sa + Qa) \<le> Sb"
    proof (cases "Sa \<le> real_of_int sa")
      case True
      have "real_of_int sa + 1 \<le> real_of_int sb"
        using 2 by linarith
      then have "Sa + Qa \<le> real_of_int sb"
        using True Qa(2) by linarith
      moreover have "0 \<le> Sa + Qa"
        using Sa Qa by simp
      ultimately have "f32_round (Sa + Qa) \<le> f32_round (real_of_int sb)"
        by (intro f32_round_mono)
      then show ?thesis
        by (simp add: Sb_def f32_of_int_def)
    next
      case False
      then have "real_of_int sa < f32_round (real_of_int sa)"
        by (simp add: Sa_def f32_of_int_def)
      then have "f32_round (f32_round (real_of_int sa) + 1) = f32_round (real_of_int sa)"
        using ra(1) by (rule f32_round_up_next)
      then have next_eq: "f32_round (Sa + 1) = Sa"
        by (simp add: Sa_def f32_of_int_def)
      have "f32_round (Sa + Qa) \<le> f32_round (Sa + 1)"
        using Sa Qa by (intro f32_round_mono) simp_all
      then show ?thesis
        using next_eq SaSb by simp
    qed
    then show ?thesis
      unfolding Ga Gb using lower by linarith
  qed
qed

section \<open>Properties of \<open>readSSID\<close>\<close>

lemma strncmp_x00:
  "strncmp ssid ''x00'' 3 = 0 \<longleftrightarrow> take 3 ssid = ''x00''"
proof (cases ssid)
  case Nil
  then show ?thesis by (simp add: numeral_3_eq_3)
next
  case (Cons a as)
  note c1 = Cons
  show ?thesis
  proof (cases as)
    case Nil
    then show ?thesis using c1 by (simp add: numeral_3_eq_3)
  next
    case (Cons b bs)
    note c2 = Cons
    show ?thesis
    proof (cases bs)
      case Nil
      then show ?thesis using c1 c2 by (simp add: numeral_3_eq_3)
    next
      case (Cons c cs)
      then show ?thesis using c1 c2 by (simp add: numeral_3_eq_3)
    qed
  qed
qed








text \<open>
  Claim C9. When the scanner subprocess cannot be started (\<open>popen\<close> returns
  \<open>NULL\<close>), \<open>readSSID\<close> returns with the queue exactly as it was: buffers, head,
  tail and both flags.
\<close>

theorem popen_failure: "readSSID None q = q"
  by (simp add: readSSID_def)

section \<open>Properties of \<open>updateInterval\<close>\<close>

lemma unat_NSEC: "unat NSEC_PER_SEC = 1000000000"
  by (simp add: NSEC_PER_SEC_def)

lemma updateInterval_loop_result:
  "unat (tv_nsec (updateInterval_loop t)) = unat (tv_nsec t) mod 1000000000 \<and>
   tv_sec (updateInterval_loop t) = tv_sec t + word_of_nat (unat (tv_nsec t) div 1000000000)"
proof (induction t rule: updateInterval_loop.induct)
  case (1 t)
  show ?case
  proof (cases "NSEC_PER_SEC \<le> tv_nsec t")
    case True
    let ?t' = "t\<lparr>tv_nsec := tv_nsec t - NSEC_PER_SEC, tv_sec := tv_sec t + 1\<rparr>"
    have ge: "1000000000 \<le> unat (tv_nsec t)"
      using True by (simp add: word_le_nat_alt unat_NSEC)
    have sub: "unat (tv_nsec t - NSEC_PER_SEC) = unat (tv_nsec t) - 1000000000"
      using unat_sub [OF True] by (simp add: unat_NSEC)
    have m: "unat (tv_nsec t) mod 1000000000 = (unat (tv_nsec t) - 1000000000) mod 1000000000"
      using ge by (rule le_mod_geq)
    have d: "unat (tv_nsec t) div 1000000000 = Suc ((unat (tv_nsec t) - 1000000000) div 1000000000)"
      using ge by (simp add: le_div_geq)
    have step: "updateInterval_loop t = updateInterval_loop ?t'"
      using True by (subst updateInterval_loop.simps) simp
    show ?thesis
      using "1.IH" [OF True] by (simp add: step sub m d)
  next
    case False
    then have lt: "unat (tv_nsec t) < 1000000000"
      by (simp add: word_le_nat_alt unat_NSEC)
    have "updateInterval_loop t = t"
      using False by (subst updateInterval_loop.simps) simp
    then show ?thesis
      using lt by simp
  qed
qed

lemma sint_small:
  fixes w :: "64 word"
  assumes "unat w < 2 ^ 63"
  shows "sint w = int (unat w)"
proof -
  have "int (unat w) < int (2 ^ 63)"
    using assms by (simp only: of_nat_less_iff)
  then have lt: "uint w < 2 ^ 63"
    by simp
  have ge: "- (2 ^ 63) \<le> uint w"
    by (rule order_trans [of _ 0]) simp_all
  have "sint w = signed_take_bit 63 (uint w)"
    by (simp add: sint_uint)
  also have "\<dots> = uint w"
    using ge lt by (rule signed_take_bit_int_eq_self)
  finally show ?thesis
    by simp
qed

lemma sint_add_nat:
  fixes w :: "64 word"
  assumes "sint w + int k < 2 ^ 63"
  shows "sint (w + word_of_nat k) = sint w + int k"
proof -
  have "w + word_of_nat k = word_of_int (sint w + int k)"
    by simp
  then have "sint (w + word_of_nat k) = signed_take_bit 63 (sint w + int k)"
    by (simp only: signed_of_int) simp
  also have "\<dots> = sint w + int k"
  proof (rule signed_take_bit_int_eq_self)
    have "- (2 ^ 63) \<le> sint w"
      using sint_ge [of w] by simp
    then show "- (2 ^ 63) \<le> sint w + int k"
      by simp
    show "sint w + int k < 2 ^ 63"
      by (rule assms)
  qed
  finally show ?thesis .
qed

lemma updateInterval_nsec_normal:
  "tv_nsec (updateInterval t interval) < NSEC_PER_SEC"
proof -
  have "unat (tv_nsec (updateInterval t interval)) < 1000000000"
    using updateInterval_loop_result [of "t\<lparr>tv_nsec := tv_nsec t + interval\<rparr>"]
    by (simp add: updateInterval_def)
  then show ?thesis
    by (simp add: word_less_nat_alt unat_NSEC)
qed

lemma updateInterval_total:
  assumes "tv_nsec t < NSEC_PER_SEC"
    and "unat (tv_nsec t) + unat interval < 2 ^ 64"
    and "sint (tv_sec t) + int ((unat (tv_nsec t) + unat interval) div 1000000000) < 2 ^ 63"
  shows "total_nsec (updateInterval t interval) = total_nsec t + int (unat interval)"
proof -
  let ?N = "unat (tv_nsec t) + unat interval"
  let ?t' = "updateInterval t interval"
  have n0: "unat (tv_nsec t) < 1000000000"
    using assms(1) by (simp add: word_less_nat_alt unat_NSEC)
  have sum: "unat (tv_nsec t + interval) = ?N"
    using assms(2) by (simp add: unat_add_lem [THEN iffD1])
  have res: "unat (tv_nsec ?t') = ?N mod 1000000000"
    "tv_sec ?t' = tv_sec t + word_of_nat (?N div 1000000000)"
    using updateInterval_loop_result [of "t\<lparr>tv_nsec := tv_nsec t + interval\<rparr>"]
    by (simp_all add: updateInterval_def sum)
  have "unat (tv_nsec ?t') < 1000000000"
    by (simp add: res(1))
  then have ns': "sint (tv_nsec ?t') = int (?N mod 1000000000)"
    using sint_small [of "tv_nsec ?t'"] by (simp add: res(1))
  have ns: "sint (tv_nsec t) = int (unat (tv_nsec t))"
    using n0 by (intro sint_small) simp
  have s': "sint (tv_sec ?t') = sint (tv_sec t) + int (?N div 1000000000)"
    unfolding res(2) using assms(3) by (rule sint_add_nat)
  have "total_nsec ?t' = sint (tv_sec t) * 1000000000 +
      (int (?N div 1000000000) * 1000000000 + int (?N mod 1000000000))"
    by (simp add: total_nsec_def ns' s' algebra_simps)
  also have "int (?N div 1000000000) * 1000000000 + int (?N mod 1000000000) = int ?N"
  proof -
    have "int (?N div 1000000000 * 1000000000 + ?N mod 1000000000) = int ?N"
      by (simp only: div_mult_mod_eq)
    then show ?thesis
      by (simp only: of_nat_add of_nat_mult of_nat_numeral)
  qed
  finally show "total_nsec ?t' = total_nsec t + int (unat interval)"
    by (simp add: total_nsec_def ns)
qed

text \<open>
  Claim C7, amended. For every timer and every interval the nanosecond field is in
  \<open>[0, 10\<^sup>9)\<close> after \<open>updateInterval\<close>: any excess is normalized into whole seconds.
  For every timer whose nanosecond field is in \<open>[0, 10\<^sup>9)\<close> and every interval for
  which neither field overflows (the sum of nanosecond field and interval fits 64 bits,
  and the seconds stay below \<open>2\<^sup>6\<^sup>3\<close>), \<open>updateInterval\<close> advances the time the timer
  denotes by exactly the interval.
\<close>

theorem updateInterval_advances:
  "0 \<le> sint (tv_nsec (updateInterval t interval)) \<and>
   sint (tv_nsec (updateInterval t interval)) < 1000000000 \<and>
   (tv_nsec t < NSEC_PER_SEC \<and>
    unat (tv_nsec t) + unat interval < 2 ^ 64 \<and>
    sint (tv_sec t) + int ((unat (tv_nsec t) + unat interval) div 1000000000) < 2 ^ 63 \<longrightarrow>
      total_nsec (updateInterval t interval) = total_nsec t + int (unat interval))"
proof -
  have lt: "unat (tv_nsec (updateInterval t interval)) < 1000000000"
    using updateInterval_nsec_normal [of t interval]
    by (simp add: word_less_nat_alt unat_NSEC)
  then have "unat (tv_nsec (updateInterval t interval)) < 2 ^ 63"
    by simp
  then have "sint (tv_nsec (updateInterval t interval)) =
      int (unat (tv_nsec (updateInterval t interval)))"
    by (rule sint_small)
  moreover have "int (unat (tv_nsec (updateInterval t interval))) < int 1000000000"
    using lt by (simp only: of_nat_less_iff)
  ultimately have "0 \<le> sint (tv_nsec (updateInterval t interval)) \<and>
      sint (tv_nsec (updateInterval t interval)) < 1000000000"
    by simp
  then show ?thesis
    using updateInterval_total [of t interval] by blast
qed

text \<open>
  Claim C7 as stated, for every interval, fails: the addition is a \<open>u64_t\<close>
  addition. With one nanosecond on the timer and the interval \<open>2\<^sup>6\<^sup>4 - 1\<close> the sum
  wraps to zero, and the timer goes back by a nanosecond. The same happens with a
  cycle time as \<open>INIT_TASK\<close> computes it: for the argument \<open>18446744073\<close> the interval
  is \<open>18446744073 \<cdot> 10\<^sup>9\<close>, and a timer at \<open>0.8\<close> seconds goes back to \<open>0.090448384\<close>
  seconds.
\<close>

theorem updateInterval_wraps:
  "tv_nsec \<lparr>tv_sec = 0, tv_nsec = 1\<rparr> < NSEC_PER_SEC \<and>
   updateInterval \<lparr>tv_sec = 0, tv_nsec = 1\<rparr> 18446744073709551615 = \<lparr>tv_sec = 0, tv_nsec = 0\<rparr> \<and>
   total_nsec (updateInterval \<lparr>tv_sec = 0, tv_nsec = 1\<rparr> 18446744073709551615) \<noteq>
     total_nsec \<lparr>tv_sec = 0, tv_nsec = 1\<rparr> + int (unat (18446744073709551615 :: 64 word)) \<and>
   tv_nsec \<lparr>tv_sec = 0, tv_nsec = 800000000\<rparr> < NSEC_PER_SEC \<and>
   18446744073 * NSEC_PER_SEC = 18446744073000000000 \<and>
   updateInterval \<lparr>tv_sec = 0, tv_nsec = 800000000\<rparr> (18446744073 * NSEC_PER_SEC) =
     \<lparr>tv_sec = 0, tv_nsec = 90448384\<rparr> \<and>
   total_nsec (updateInterval \<lparr>tv_sec = 0, tv_nsec = 800000000\<rparr> (18446744073 * NSEC_PER_SEC)) \<noteq>
     total_nsec \<lparr>tv_sec = 0, tv_nsec = 800000000\<rparr> + int (unat (18446744073 * NSEC_PER_SEC))"
  by (simp add: updateInterval_def updateInterval_loop.simps NSEC_PER_SEC_def total_nsec_def)

section \<open>Properties of the entry point\<close>

lemma READ_TASK_timer_zero:
  assumes "tv_nsec start < NSEC_PER_SEC"
  shows "READ_TASK_timer 0 start n = start"
proof (induction n)
  case 0
  show ?case by simp
next
  case (Suc n)
  have "\<not> NSEC_PER_SEC \<le> tv_nsec start"
    using assms by (simp add: not_le)
  then have "updateInterval_loop start = start"
    by (subst updateInterval_loop.simps) simp
  then have "updateInterval start 0 = start"
    by (simp add: updateInterval_def)
  then show ?case
    using Suc by simp
qed

text \<open>
  Claim C10. \<open>INIT_TASK\<close> exits, with status \<open>-4\<close>, exactly when the argument count
  is not 2, and so does \<open>main\<close> once its two setup calls have succeeded. With one
  argument for which \<open>strtoul\<close> yields 0, as it does when the argument has no digits
  to parse, \<open>INIT_TASK\<close> raises no error and sets \<open>read_cycle_time\<close> to 0; the
  deadline of \<open>READ_TASK\<close> is then in every iteration the clock reading it started
  from.
\<close>

theorem zero_cycle_time:
  "(isl (INIT_TASK strtoul argc argv q) \<longleftrightarrow> argc \<noteq> 2) \<and>
   (INIT_TASK strtoul argc argv q = Inl (- 4) \<longleftrightarrow> argc \<noteq> 2) \<and>
   (snd (main_entry strtoul 0 0 argc argv) = Exit (- 4) \<longleftrightarrow> argc \<noteq> 2) \<and>
   (argc = 2 \<and> strtoul (argv ! 1) = 0 \<longrightarrow>
      (\<exists>cycle q'. INIT_TASK strtoul argc argv q = Inr (cycle, q') \<and> cycle = 0 \<and>
         (tv_nsec start < NSEC_PER_SEC \<longrightarrow> READ_TASK_timer cycle start n = start)))"
  by (simp add: INIT_TASK_def main_entry_def READ_TASK_timer_zero)

text \<open>
  Claim C2, amended. With an argument count other than 2 the process always exits
  with a fatal status, but the count is checked last: \<open>main\<close> first locks memory,
  prefaults the stack and pins the CPU. The status is \<open>-2\<close> when \<open>mlockall\<close> fails
  (nothing else was done), \<open>-3\<close> when \<open>sched_setaffinity\<close> fails, and the
  configuration status \<open>-4\<close> after all three setup calls. The three statuses are
  pairwise distinct and non-zero, also in the low eight bits that the parent process
  sees.
\<close>

theorem argument_check_after_setup:
  assumes "argc \<noteq> 2"
  shows "main_entry strtoul mlockall_ret sched_setaffinity_ret argc argv =
      (if mlockall_ret = - 1 then ([Mlockall], Exit (- 2))
       else if sched_setaffinity_ret = - 1
         then ([Mlockall, PrefaultStack, SchedSetaffinity], Exit (- 3))
       else ([Mlockall, PrefaultStack, SchedSetaffinity], Exit (- 4))) \<and>
    snd (main_entry strtoul (- 1) sched_setaffinity_ret argc' argv') = Exit (- 2) \<and>
    snd (main_entry strtoul 0 (- 1) argc' argv') = Exit (- 3) \<and>
    snd (main_entry strtoul 0 0 argc argv) = Exit (- 4) \<and>
    distinct [- 2, - 3, - 4 :: int] \<and> 0 \<notin> set [- 2, - 3, - 4 :: int] \<and>
    distinct (map (\<lambda>status. status mod 256) [- 2, - 3, - 4 :: int]) \<and>
    0 \<notin> set (map (\<lambda>status. status mod 256) [- 2, - 3, - 4 :: int])"
  using assms by (simp add: main_entry_def INIT_TASK_def)

text \<open>
  Claim C2 as stated fails. Started without an argument, the process has made all
  three real-time setup calls when it exits with \<open>-4\<close>; and when \<open>mlockall\<close> fails
  it exits with \<open>-2\<close>, not with the configuration status.
\<close>

theorem setup_precedes_argument_check:
  "main_entry strtoul_c 0 0 1 [''rt_wifi_scanner''] =
     ([Mlockall, PrefaultStack, SchedSetaffinity], Exit (- 4)) \<and>
   main_entry strtoul_c (- 1) 0 1 [''rt_wifi_scanner''] = ([Mlockall], Exit (- 2))"
  by (simp add: main_entry_def INIT_TASK_def)

section \<open>Properties of \<open>storeSSIDs\<close>\<close>

lemma strcmp_eq: "strcmp a b = 0 \<longleftrightarrow> a = b"
  by (induction a b rule: strcmp.induct) auto

lemma realloc_grow:
  assumes "length xs = n"
  shows "(realloc fresh xs (Suc n))[n := v] = xs @ [v]"
  using assms by (auto simp: realloc_def)

lemma history_inv_nth:
  assumes "history_inv h" and "i < ssid_num h"
  shows "0 < num_timestamps h ! i" "length (timestamps h ! i) = num_timestamps h ! i"
    "length (latencies h ! i) = num_timestamps h ! i"
  using assms by (simp_all add: history_inv_def list_all_iff)

lemma storeSSIDs_loop_result:
  assumes "history_inv h"
  shows "(snd (storeSSIDs_loop ssid timestamp current_t h i) \<longrightarrow>
      (\<exists>k. i \<le> k \<and> k < ssid_num h \<and> ssids h ! k = ssid \<and>
         last (timestamps h ! k) \<noteq> timestamp \<and>
         fst (storeSSIDs_loop ssid timestamp current_t h i) =
           h\<lparr>num_timestamps := (num_timestamps h)[k := Suc (num_timestamps h ! k)],
             timestamps := (timestamps h)[k := timestamps h ! k @ [timestamp]],
             latencies := (latencies h)
               [k := latencies h ! k @ [f32_sub (getCurrentTimestamp current_t) timestamp]]\<rparr>)) \<and>
    (\<not> snd (storeSSIDs_loop ssid timestamp current_t h i) \<longrightarrow>
      fst (storeSSIDs_loop ssid timestamp current_t h i) = h)"
  using assms
proof (induction ssid timestamp current_t h i rule: storeSSIDs_loop.induct)
  case (1 ssid timestamp current_t h i)
  show ?case
  proof (cases "i < ssid_num h")
    case False
    then show ?thesis
      by (subst (1 2 3 4) storeSSIDs_loop.simps) simp
  next
    case lt: True
    note nth = history_inv_nth [OF "1.prems" lt]
    have lens: "i < length (num_timestamps h)" "i < length (timestamps h)"
      "i < length (latencies h)"
      using "1.prems" lt by (simp_all add: history_inv_def)
    have "timestamps h ! i \<noteq> []"
      using nth by auto
    then have lastts: "timestamps h ! i ! (num_timestamps h ! i - 1) = last (timestamps h ! i)"
      by (simp add: last_conv_nth nth(2))
    show ?thesis
    proof (cases "strcmp (ssids h ! i) ssid = 0 \<and>
        timestamps h ! i ! (num_timestamps h ! i - 1) \<noteq> timestamp")
      case True
      have res: "storeSSIDs_loop ssid timestamp current_t h i =
        (h\<lparr>num_timestamps := (num_timestamps h)[i := Suc (num_timestamps h ! i)],
           timestamps := (timestamps h)[i := timestamps h ! i @ [timestamp]],
           latencies := (latencies h)
             [i := latencies h ! i @ [f32_sub (getCurrentTimestamp current_t) timestamp]]\<rparr>, True)"
        using True lt lens realloc_grow [OF nth(2)] realloc_grow [OF nth(3)]
        by (subst storeSSIDs_loop.simps) (simp add: Let_def)
      show ?thesis
        unfolding res using True lt lastts by (auto simp: strcmp_eq)
    next
      case False
      have step: "storeSSIDs_loop ssid timestamp current_t h i =
          storeSSIDs_loop ssid timestamp current_t h (i + 1)"
        using False lt by (subst storeSSIDs_loop.simps) auto
      note IH = "1.IH" [OF lt False "1.prems"]
      show ?thesis
        unfolding step
      proof (intro conjI impI)
        assume "snd (storeSSIDs_loop ssid timestamp current_t h (i + 1))"
        with IH obtain k where k: "i + 1 \<le> k" "k < ssid_num h" "ssids h ! k = ssid"
          "last (timestamps h ! k) \<noteq> timestamp"
          "fst (storeSSIDs_loop ssid timestamp current_t h (i + 1)) =
           h\<lparr>num_timestamps := (num_timestamps h)[k := Suc (num_timestamps h ! k)],
             timestamps := (timestamps h)[k := timestamps h ! k @ [timestamp]],
             latencies := (latencies h)
               [k := latencies h ! k @ [f32_sub (getCurrentTimestamp current_t) timestamp]]\<rparr>"
          by blast
        from k(1) have "i \<le> k"
          by simp
        with k(2-5) show "\<exists>k. i \<le> k \<and> k < ssid_num h \<and> ssids h ! k = ssid \<and>
           last (timestamps h ! k) \<noteq> timestamp \<and>
           fst (storeSSIDs_loop ssid timestamp current_t h (i + 1)) =
           h\<lparr>num_timestamps := (num_timestamps h)[k := Suc (num_timestamps h ! k)],
             timestamps := (timestamps h)[k := timestamps h ! k @ [timestamp]],
             latencies := (latencies h)
               [k := latencies h ! k @ [f32_sub (getCurrentTimestamp current_t) timestamp]]\<rparr>"
          by blast
      next
        assume "\<not> snd (storeSSIDs_loop ssid timestamp current_t h (i + 1))"
        with IH show "fst (storeSSIDs_loop ssid timestamp current_t h (i + 1)) = h"
          by blast
      qed
    qed
  qed
qed

lemma storeSSIDs_new_result:
  assumes "history_inv h"
  shows "storeSSIDs_new ssid timestamp current_t h =
    \<lparr>ssid_num = Suc (ssid_num h), ssids = ssids h @ [ssid],
     num_timestamps = num_timestamps h @ [1],
     timestamps = timestamps h @ [[timestamp]],
     latencies = latencies h @ [[f32_sub (getCurrentTimestamp current_t) timestamp]]\<rparr>"
proof -
  have l: "length (ssids h) = ssid_num h" "length (num_timestamps h) = ssid_num h"
    "length (timestamps h) = ssid_num h" "length (latencies h) = ssid_num h"
    using assms by (simp_all add: history_inv_def)
  show ?thesis
    by (simp add: storeSSIDs_new_def Let_def realloc_grow [OF l(1)] realloc_grow [OF l(2)]
        realloc_grow [OF l(3)] realloc_grow [OF l(4)])
qed

lemma storeSSIDs_result:
  assumes "history_inv h"
  shows "(\<exists>k < ssid_num h. ssids h ! k = fst (queuePop q) \<and>
       last (timestamps h ! k) \<noteq> fst (snd (queuePop q)) \<and>
       snd (storeSSIDs current_t (q, h)) =
         h\<lparr>num_timestamps := (num_timestamps h)[k := Suc (num_timestamps h ! k)],
           timestamps := (timestamps h)[k := timestamps h ! k @ [fst (snd (queuePop q))]],
           latencies := (latencies h)
             [k := latencies h ! k @
                [f32_sub (getCurrentTimestamp current_t) (fst (snd (queuePop q)))]]\<rparr>) \<or>
    snd (storeSSIDs current_t (q, h)) =
      \<lparr>ssid_num = Suc (ssid_num h), ssids = ssids h @ [fst (queuePop q)],
       num_timestamps = num_timestamps h @ [1],
       timestamps = timestamps h @ [[fst (snd (queuePop q))]],
       latencies = latencies h @ [[f32_sub (getCurrentTimestamp current_t) (fst (snd (queuePop q)))]]\<rparr>"
proof -
  let ?ssid = "fst (queuePop q)" and ?ts = "fst (snd (queuePop q))"
  let ?r = "storeSSIDs_loop ?ssid ?ts current_t h 0"
  have st: "snd (storeSSIDs current_t (q, h)) =
      (if \<not> snd ?r then storeSSIDs_new ?ssid ?ts current_t (fst ?r) else fst ?r)"
    by (simp add: storeSSIDs_def split_beta)
  note loop = storeSSIDs_loop_result [OF assms, of ?ssid ?ts current_t 0]
  show ?thesis
  proof (cases "snd ?r")
    case True
    with loop st show ?thesis
      by auto
  next
    case False
    with loop have "fst ?r = h"
      by simp
    with False st show ?thesis
      by (simp add: storeSSIDs_new_result [OF assms])
  qed
qed

lemma history_inv_static: "history_inv history_static"
  by (simp add: history_inv_def history_static_def)

lemma history_inv_append:
  assumes "history_inv h" and "k < ssid_num h"
  shows "history_inv
    (h\<lparr>num_timestamps := (num_timestamps h)[k := Suc (num_timestamps h ! k)],
       timestamps := (timestamps h)[k := timestamps h ! k @ [t]],
       latencies := (latencies h)[k := latencies h ! k @ [l]]\<rparr>)"
  using assms by (auto simp: history_inv_def list_all_iff nth_list_update)

lemma history_inv_new:
  assumes "history_inv h"
  shows "history_inv
    \<lparr>ssid_num = Suc (ssid_num h), ssids = ssids h @ [s],
     num_timestamps = num_timestamps h @ [1],
     timestamps = timestamps h @ [[t]],
     latencies = latencies h @ [[l]]\<rparr>"
  using assms by (auto simp: history_inv_def list_all_iff nth_append)

lemma storeSSIDs_inv:
  assumes "history_inv h"
  shows "history_inv (snd (storeSSIDs current_t (q, h)))"
  using storeSSIDs_result [OF assms, of q current_t]
    history_inv_append [OF assms] history_inv_new [OF assms]
  by auto

lemma STORE_TASK_history_snoc:
  "STORE_TASK_history (steps @ [(current_t, q)]) =
     snd (storeSSIDs current_t (q, STORE_TASK_history steps))"
  by (simp add: STORE_TASK_history_def)

lemma STORE_TASK_history_inv: "history_inv (STORE_TASK_history steps)"
proof (induction steps rule: rev_induct)
  case Nil
  show ?case by (simp add: STORE_TASK_history_def history_inv_static)
next
  case (snoc step steps)
  obtain current_t q where "step = (current_t, q)"
    by (cases step)
  then show ?case
    using storeSSIDs_inv [OF snoc] by (simp add: STORE_TASK_history_snoc)
qed

text \<open>
  Claim C6. Every call of \<open>storeSSIDs\<close> appends the dequeued timestamp to one
  identifier's sequence, an existing one or the one it creates, and appends to the
  latency sequence of the same identifier the clock reading of the aggregation minus
  that timestamp, a float subtraction. The latency is not negative when the timestamp
  is not later than the time of the aggregation, and so in particular when the timestamp
  was taken from a reading of the monotonic clock that is not later than the reading of
  the aggregation.
\<close>

theorem latency_recorded:
  assumes "history_inv h"
  shows "let (ssid, timestamp, q') = queuePop q;
             h' = snd (storeSSIDs current_t (q, h)) in
         \<exists>k < ssid_num h'.
           ssids h' ! k = ssid \<and>
           timestamps h' ! k =
             (if k < ssid_num h then timestamps h ! k else []) @ [timestamp] \<and>
           latencies h' ! k =
             (if k < ssid_num h then latencies h ! k else []) @
             [f32_sub (getCurrentTimestamp current_t) timestamp] \<and>
           (timestamp \<le> getCurrentTimestamp current_t \<longrightarrow> 0 \<le> last (latencies h' ! k)) \<and>
           (\<forall>capture_t. timestamp = getCurrentTimestamp capture_t \<and>
              clock_reading capture_t \<and> clock_reading current_t \<and>
              total_nsec capture_t \<le> total_nsec current_t \<longrightarrow> 0 \<le> last (latencies h' ! k))"
proof -
  let ?ssid = "fst (queuePop q)" and ?ts = "fst (snd (queuePop q))"
  let ?h' = "snd (storeSSIDs current_t (q, h))"
  have l: "length (ssids h) = ssid_num h" "length (num_timestamps h) = ssid_num h"
    "length (timestamps h) = ssid_num h" "length (latencies h) = ssid_num h"
    using assms by (simp_all add: history_inv_def)
  have "\<exists>k < ssid_num ?h'. ssids ?h' ! k = ?ssid \<and>
      timestamps ?h' ! k = (if k < ssid_num h then timestamps h ! k else []) @ [?ts] \<and>
      latencies ?h' ! k = (if k < ssid_num h then latencies h ! k else []) @
        [f32_sub (getCurrentTimestamp current_t) ?ts]"
    using storeSSIDs_result [OF assms, of q current_t]
  proof (elim disjE exE conjE)
    fix k
    assume k: "k < ssid_num h" "ssids h ! k = ?ssid"
      and h': "?h' = h\<lparr>num_timestamps := (num_timestamps h)[k := Suc (num_timestamps h ! k)],
           timestamps := (timestamps h)[k := timestamps h ! k @ [?ts]],
           latencies := (latencies h)
             [k := latencies h ! k @ [f32_sub (getCurrentTimestamp current_t) ?ts]]\<rparr>"
    show ?thesis
      unfolding h' using k l by (intro exI [of _ k]) simp
  next
    assume h': "?h' = \<lparr>ssid_num = Suc (ssid_num h), ssids = ssids h @ [?ssid],
       num_timestamps = num_timestamps h @ [1],
       timestamps = timestamps h @ [[?ts]],
       latencies = latencies h @ [[f32_sub (getCurrentTimestamp current_t) ?ts]]\<rparr>"
    show ?thesis
      unfolding h' using l by (intro exI [of _ "ssid_num h"]) (simp add: nth_append)
  qed
  then obtain k where k: "k < ssid_num ?h'" "ssids ?h' ! k = ?ssid"
    "timestamps ?h' ! k = (if k < ssid_num h then timestamps h ! k else []) @ [?ts]"
    "latencies ?h' ! k = (if k < ssid_num h then latencies h ! k else []) @
        [f32_sub (getCurrentTimestamp current_t) ?ts]"
    by blast
  have last: "last (latencies ?h' ! k) = f32_sub (getCurrentTimestamp current_t) ?ts"
    by (simp add: k(4))
  have nonneg: "?ts \<le> getCurrentTimestamp current_t \<longrightarrow> 0 \<le> last (latencies ?h' ! k)"
    unfolding last f32_sub_def by (simp add: f32_round_nonneg)
  have mono: "\<forall>capture_t. ?ts = getCurrentTimestamp capture_t \<and>
      clock_reading capture_t \<and> clock_reading current_t \<and>
      total_nsec capture_t \<le> total_nsec current_t \<longrightarrow> 0 \<le> last (latencies ?h' ! k)"
  proof (intro allI impI)
    fix capture_t
    assume a: "?ts = getCurrentTimestamp capture_t \<and>
      clock_reading capture_t \<and> clock_reading current_t \<and>
      total_nsec capture_t \<le> total_nsec current_t"
    then have "getCurrentTimestamp capture_t \<le> getCurrentTimestamp current_t"
      by (intro getCurrentTimestamp_mono) simp_all
    then have "?ts \<le> getCurrentTimestamp current_t"
      using a by simp
    then show "0 \<le> last (latencies ?h' ! k)"
      using nonneg by (rule rev_mp)
  qed
  with k nonneg show ?thesis
    unfolding Let_def split_beta by blast
qed

text \<open>
  Claim C5. After every aggregation step each identifier's timestamp sequence and
  latency sequence have the same length. A step leaves the two sequences of an existing
  identifier as they were or makes both longer by one, and an identifier it creates
  starts with one timestamp and one latency.
\<close>

theorem sequences_equal_length:
  "let h = STORE_TASK_history steps;
       h' = STORE_TASK_history (steps @ [(current_t, q)]) in
     history_inv h \<and> history_inv h' \<and>
     (\<forall>i < ssid_num h'. length (timestamps h' ! i) = length (latencies h' ! i)) \<and>
     (\<forall>i < ssid_num h.
        (timestamps h' ! i = timestamps h ! i \<and> latencies h' ! i = latencies h ! i) \<or>
        (length (timestamps h' ! i) = Suc (length (timestamps h ! i)) \<and>
         length (latencies h' ! i) = Suc (length (latencies h ! i)))) \<and>
     ssid_num h \<le> ssid_num h' \<and>
     (\<forall>i < ssid_num h'. ssid_num h \<le> i \<longrightarrow>
        length (timestamps h' ! i) = 1 \<and> length (latencies h' ! i) = 1)"
proof -
  let ?h = "STORE_TASK_history steps"
  let ?h' = "snd (storeSSIDs current_t (q, ?h))"
  have inv: "history_inv ?h"
    by (rule STORE_TASK_history_inv)
  have inv': "history_inv ?h'"
    using inv by (rule storeSSIDs_inv)
  have l: "length (ssids ?h) = ssid_num ?h" "length (num_timestamps ?h) = ssid_num ?h"
    "length (timestamps ?h) = ssid_num ?h" "length (latencies ?h) = ssid_num ?h"
    using inv by (simp_all add: history_inv_def)
  have eq: "\<forall>i < ssid_num ?h'. length (timestamps ?h' ! i) = length (latencies ?h' ! i)"
    using inv' by (simp add: history_inv_def list_all_iff)
  have step: "(\<forall>i < ssid_num ?h.
        (timestamps ?h' ! i = timestamps ?h ! i \<and> latencies ?h' ! i = latencies ?h ! i) \<or>
        (length (timestamps ?h' ! i) = Suc (length (timestamps ?h ! i)) \<and>
         length (latencies ?h' ! i) = Suc (length (latencies ?h ! i)))) \<and>
     ssid_num ?h \<le> ssid_num ?h' \<and>
     (\<forall>i < ssid_num ?h'. ssid_num ?h \<le> i \<longrightarrow>
        length (timestamps ?h' ! i) = 1 \<and> length (latencies ?h' ! i) = 1)"
    using storeSSIDs_result [OF inv, of q current_t]
  proof (elim disjE exE conjE)
    fix k
    assume k: "k < ssid_num ?h"
      and h': "?h' = ?h\<lparr>num_timestamps := (num_timestamps ?h)[k := Suc (num_timestamps ?h ! k)],
           timestamps := (timestamps ?h)[k := timestamps ?h ! k @ [fst (snd (queuePop q))]],
           latencies := (latencies ?h)
             [k := latencies ?h ! k @
                [f32_sub (getCurrentTimestamp current_t) (fst (snd (queuePop q)))]]\<rparr>"
    show ?thesis
      unfolding h' using k l by (simp add: nth_list_update)
  next
    assume h': "?h' = \<lparr>ssid_num = Suc (ssid_num ?h), ssids = ssids ?h @ [fst (queuePop q)],
       num_timestamps = num_timestamps ?h @ [1],
       timestamps = timestamps ?h @ [[fst (snd (queuePop q))]],
       latencies = latencies ?h @
         [[f32_sub (getCurrentTimestamp current_t) (fst (snd (queuePop q)))]]\<rparr>"
    show ?thesis
      unfolding h' using l by (simp add: nth_append less_Suc_eq)
  qed
  show ?thesis
    unfolding Let_def STORE_TASK_history_snoc
    using inv inv' eq step by blast
qed

text \<open>
  Claim C1 against the code. The scanner reports \<open>NetA\<close> twice within one clock
  reading, so the queue holds the pair \<open>(NetA, 10)\<close> twice. The first aggregation
  creates the entry. In the second, the loop finds \<open>NetA\<close> with its last timestamp
  equal to the new one, appends nothing and leaves \<open>ssid_found\<close> at 0; the code that
  follows then creates a second entry for \<open>NetA\<close>.
\<close>

theorem duplicate_entry:
  "snd (storeSSIDs \<lparr>tv_sec = 10, tv_nsec = 7000\<rparr>
     (storeSSIDs \<lparr>tv_sec = 10, tv_nsec = 5000\<rparr>
        (readSSID (Some [(''NetA'', \<lparr>tv_sec = 10, tv_nsec = 0\<rparr>),
                         (''NetA'', \<lparr>tv_sec = 10, tv_nsec = 0\<rparr>)])
           (ssid_queue_static\<lparr>empty_flag := True\<rparr>),
         history_static))) =
   \<lparr>ssid_num = 2, ssids = [''NetA'', ''NetA''], num_timestamps = [1, 1],
    timestamps = [[10], [10]], latencies = [[5 / 1048576], [7 / 1048576]]\<rparr>"
  by (simp add: readSSID_def strncmp_x00 storeSSIDs_def queuePop_def queueAdd_def Let_def
      ssid_queue_static_def BUFFER_SIZE_def storeSSIDs_loop.simps storeSSIDs_new_def realloc_def
      history_static_def getCurrentTimestamp_values f32_sub_values)

section \<open>Instances\<close>

theorem fifo_order_witness:
  "queue_inv (ssid_queue_static\<lparr>empty_flag := True\<rparr>) \<and>
   empty_flag (ssid_queue_static\<lparr>empty_flag := True\<rparr>) \<and>
   guarded [Add ''NetA'' 10, Add ''NetB'' 10.5, Pop, Add ''NetC'' 11, Pop]
     (ssid_queue_static\<lparr>empty_flag := True\<rparr>) \<and>
   fst (run_ops [Add ''NetA'' 10, Add ''NetB'' 10.5, Pop, Add ''NetC'' 11, Pop]
     (ssid_queue_static\<lparr>empty_flag := True\<rparr>)) = [(''NetA'', 10), (''NetB'', 10.5)] \<and>
   queue_entries (snd (run_ops [Add ''NetA'' 10, Add ''NetB'' 10.5, Pop, Add ''NetC'' 11, Pop]
     (ssid_queue_static\<lparr>empty_flag := True\<rparr>))) = [(''NetC'', 11)]"
proof -
  let ?q = "ssid_queue_static\<lparr>empty_flag := True\<rparr>"
  let ?ops = "[Add ''NetA'' 10, Add ''NetB'' 10.5, Pop, Add ''NetC'' 11, Pop]"
  have inv: "queue_inv ?q"
    by (simp add: queue_inv_def ssid_queue_static_def BUFFER_SIZE_def)
  have e: "empty_flag ?q"
    by simp
  have g: "guarded ?ops ?q"
    by (simp add: queueAdd_fields queuePop_fields ssid_queue_static_def BUFFER_SIZE_def
        SSID_SIZE_def)
  show ?thesis
    using fifo_order [OF inv e g] inv g by simp
qed



theorem updateInterval_advances_witness:
  "tv_nsec \<lparr>tv_sec = 100, tv_nsec = 999999999\<rparr> < NSEC_PER_SEC \<and>
   total_nsec (updateInterval \<lparr>tv_sec = 100, tv_nsec = 999999999\<rparr> 2000000000) = 102999999999 \<and>
   0 \<le> sint (tv_nsec (updateInterval \<lparr>tv_sec = 100, tv_nsec = 999999999\<rparr> 2000000000)) \<and>
   sint (tv_nsec (updateInterval \<lparr>tv_sec = 100, tv_nsec = 999999999\<rparr> 2000000000)) < 1000000000"
proof -
  let ?t = "\<lparr>tv_sec = 100, tv_nsec = 999999999\<rparr>"
  have a: "tv_nsec ?t < NSEC_PER_SEC"
    by (simp add: NSEC_PER_SEC_def)
  have b: "unat (tv_nsec ?t) + unat (2000000000 :: 64 word) < 2 ^ 64"
    by simp
  have c: "sint (tv_sec ?t) + int ((unat (tv_nsec ?t) + unat (2000000000 :: 64 word)) div 1000000000) < 2 ^ 63"
    by simp
  have "total_nsec (updateInterval ?t 2000000000) = total_nsec ?t + int (unat (2000000000 :: 64 word))"
    using updateInterval_advances [of ?t 2000000000] a b c by blast
  then show ?thesis
    using updateInterval_advances [of ?t 2000000000] a
    by (simp add: total_nsec_def)
qed

theorem zero_cycle_time_witness:
  "strtoul_c ''abc'' = 0 \<and>
   INIT_TASK strtoul_c 2 [''rt_wifi_scanner'', ''abc''] ssid_queue_static =
     Inr (0, ssid_queue_static\<lparr>empty_flag := True\<rparr>) \<and>
   READ_TASK_timer 0 \<lparr>tv_sec = 100, tv_nsec = 5\<rparr> 3 = \<lparr>tv_sec = 100, tv_nsec = 5\<rparr> \<and>
   INIT_TASK strtoul_c 3 [''rt_wifi_scanner'', ''2'', ''3''] ssid_queue_static = Inl (- 4)"
proof -
  have z: "strtoul_c ''abc'' = 0"
    by (simp add: strtoul_c_def strtoul_unsigned_def isspace_def digit_value_def Let_def)
  have n: "tv_nsec \<lparr>tv_sec = 100, tv_nsec = 5\<rparr> < NSEC_PER_SEC"
    by (simp add: NSEC_PER_SEC_def)
  show ?thesis
    using zero_cycle_time [of strtoul_c 2 "[''rt_wifi_scanner'', ''abc'']" ssid_queue_static
        "\<lparr>tv_sec = 100, tv_nsec = 5\<rparr>" 3]
      zero_cycle_time [of strtoul_c 3 "[''rt_wifi_scanner'', ''2'', ''3'']" ssid_queue_static]
      z n
    by (simp add: INIT_TASK_def ssid_queue_static_def)
qed

theorem argument_check_after_setup_witness:
  "main_entry strtoul_c 0 0 3 [''rt_wifi_scanner'', ''2'', ''3''] =
     ([Mlockall, PrefaultStack, SchedSetaffinity], Exit (- 4))"
  using argument_check_after_setup [of 3 strtoul_c 0 0 "[''rt_wifi_scanner'', ''2'', ''3'']"]
  by simp

lemma first_aggregation:
  "storeSSIDs \<lparr>tv_sec = 10, tv_nsec = 500000000\<rparr>
     (queueAdd ''NetA'' 10 (ssid_queue_static\<lparr>empty_flag := True\<rparr>), history_static) =
   (ssid_queue_static\<lparr>empty_flag := True, ssid_buffer := (replicate 32 [])[0 := ''NetA''],
      timestamp_buffer := (replicate 32 0)[0 := 10], head := 1, tail := 1\<rparr>,
    \<lparr>ssid_num = 1, ssids = [''NetA''], num_timestamps = [1], timestamps = [[10]],
     latencies = [[1 / 2]]\<rparr>)"
  by (simp add: storeSSIDs_def queuePop_def queueAdd_def Let_def ssid_queue_static_def
      BUFFER_SIZE_def storeSSIDs_loop.simps storeSSIDs_new_def realloc_def history_static_def
      getCurrentTimestamp_values f32_sub_values)

theorem latency_recorded_witness:
  "history_inv history_static \<and>
   (\<exists>k < ssid_num (snd (storeSSIDs \<lparr>tv_sec = 10, tv_nsec = 500000000\<rparr>
        (queueAdd ''NetA'' 10 (ssid_queue_static\<lparr>empty_flag := True\<rparr>), history_static))).
      ssids (snd (storeSSIDs \<lparr>tv_sec = 10, tv_nsec = 500000000\<rparr>
        (queueAdd ''NetA'' 10 (ssid_queue_static\<lparr>empty_flag := True\<rparr>), history_static))) ! k =
        ''NetA'' \<and>
      latencies (snd (storeSSIDs \<lparr>tv_sec = 10, tv_nsec = 500000000\<rparr>
        (queueAdd ''NetA'' 10 (ssid_queue_static\<lparr>empty_flag := True\<rparr>), history_static))) ! k =
        [1 / 2])"
proof -
  let ?q = "queueAdd ''NetA'' 10 (ssid_queue_static\<lparr>empty_flag := True\<rparr>)"
  let ?t = "\<lparr>tv_sec = 10, tv_nsec = 500000000\<rparr>"
  have inv: "history_inv history_static"
    by (simp add: history_inv_def history_static_def)
  have pop: "fst (queuePop ?q) = ''NetA''" "fst (snd (queuePop ?q)) = 10"
    by (simp_all add: queuePop_def queueAdd_def Let_def ssid_queue_static_def BUFFER_SIZE_def)
  have now: "getCurrentTimestamp ?t = 21 / 2"
    by (simp add: getCurrentTimestamp_values)
  have lat: "f32_sub (21 / 2) 10 = 1 / 2"
    by (simp add: f32_sub_values)
  have n: "ssid_num history_static = 0"
    by (simp add: history_static_def)
  show ?thesis
    using latency_recorded [OF inv, of ?q ?t] inv
    unfolding Let_def split_beta pop now lat n
    by auto
qed

theorem sequences_equal_length_witness:
  "ssid_num (STORE_TASK_history [(\<lparr>tv_sec = 10, tv_nsec = 500000000\<rparr>,
      queueAdd ''NetA'' 10 (ssid_queue_static\<lparr>empty_flag := True\<rparr>))]) = 1 \<and>
   length (timestamps (STORE_TASK_history [(\<lparr>tv_sec = 10, tv_nsec = 500000000\<rparr>,
      queueAdd ''NetA'' 10 (ssid_queue_static\<lparr>empty_flag := True\<rparr>))]) ! 0) = 1 \<and>
   length (latencies (STORE_TASK_history [(\<lparr>tv_sec = 10, tv_nsec = 500000000\<rparr>,
      queueAdd ''NetA'' 10 (ssid_queue_static\<lparr>empty_flag := True\<rparr>))]) ! 0) = 1"
proof -
  let ?q = "queueAdd ''NetA'' 10 (ssid_queue_static\<lparr>empty_flag := True\<rparr>)"
  let ?t = "\<lparr>tv_sec = 10, tv_nsec = 500000000\<rparr>"
  have n: "ssid_num (STORE_TASK_history [(?t, ?q)]) = 1"
    by (simp add: STORE_TASK_history_def first_aggregation)
  have n0: "ssid_num (STORE_TASK_history []) = 0"
    by (simp add: STORE_TASK_history_def history_static_def)
  show ?thesis
    using sequences_equal_length [of "[]" ?t ?q] n n0
    unfolding Let_def by simp
qed

end
